theory Spec2Isabelle
  imports Main
begin

section \<open>Machine integers\<close>

text \<open>
  Every arithmetic variable of \<^verbatim>\<open>calculations.pyx\<close> is a C \<^verbatim>\<open>int\<close> (\<^verbatim>\<open>cdef int\<close>,
  \<^verbatim>\<open>int[:]\<close>, \<^verbatim>\<open>int[:,:]\<close>, \<^verbatim>\<open>dtype='int32'\<close>): a 32-bit two's complement value.
  Values are modelled as \<open>int\<close> with the wrap-around written out: \<open>int32\<close> maps a
  mathematical result back into \<open>-2^31 .. 2^31 - 1\<close>.
\<close>

definition int32 :: "int \<Rightarrow> int" where
  "int32 x = (x + 2147483648) mod 4294967296 - 2147483648"

definition add32 :: "int \<Rightarrow> int \<Rightarrow> int" where
  "add32 a b = int32 (a + b)"

definition sub32 :: "int \<Rightarrow> int \<Rightarrow> int" where
  "sub32 a b = int32 (a - b)"

section \<open>Data model\<close>

text \<open>
  The processing-time matrix is a two-dimensional array, rows indexed by job id minus one
  and columns by machine index minus one. The source reads it with bounds checking
  switched off, so a read outside the matrix raises nothing; what such a read yields is
  not determined by the arguments, and the model puts 0 there. Every statement below
  that depends on a processing time keeps the read inside the matrix by hypothesis.
\<close>

text \<open>
  Job ids are elements of an \<^verbatim>\<open>int[:]\<close> array and are modelled as \<open>int\<close>. The sequence
  length \<^verbatim>\<open>len(sequence)\<close>, the machine count and the loop counters \<open>i\<close>, \<open>j\<close> are
  counts and are modelled as \<open>nat\<close>; the loops keep every \<open>nat\<close> subtraction below away
  from zero.
\<close>

definition pt :: "int list list \<Rightarrow> int \<Rightarrow> nat \<Rightarrow> int" where
  "pt p r c =
     (if 0 \<le> r \<and> r < int (length p) \<and> c < length (p ! nat r) then p ! nat r ! c else 0)"

text \<open>A numpy table made by \<^verbatim>\<open>zeros((rows, cols))\<close>, read and written by index.\<close>

definition zeros2 :: "nat \<Rightarrow> nat \<Rightarrow> int list list" where
  "zeros2 rows cols = replicate rows (replicate cols 0)"

definition get2 :: "int list list \<Rightarrow> nat \<Rightarrow> nat \<Rightarrow> int" where
  "get2 e i j = e ! i ! j"

definition set2 :: "int list list \<Rightarrow> nat \<Rightarrow> nat \<Rightarrow> int \<Rightarrow> int list list" where
  "set2 e i j v = e[i := (e ! i)[j := v]]"

section \<open>calculate\_completion\_times\<close>

datatype cct_result = Table "int list list" | Scalar int

text \<open>The body of the inner loop, for sequence position \<open>i\<close> and machine \<open>j\<close>.\<close>

definition cct_cell ::
  "int list \<Rightarrow> int list list \<Rightarrow> nat \<Rightarrow> nat \<Rightarrow> int list list \<Rightarrow> int list list" where
  "cct_cell seq p i j e0 =
     (let e = (if i = 1 then set2 e0 0 j 0 else e0)
      in if get2 e (i - 1) j > get2 e i (j - 1)
         then set2 e i j (add32 (get2 e (i - 1) j) (pt p (seq ! (i - 1) - 1) (j - 1)))
         else set2 e i j (add32 (get2 e i (j - 1)) (pt p (seq ! (i - 1) - 1) (j - 1))))"

text \<open>The body of the outer loop: \<^verbatim>\<open>e[i,0] = 0\<close>, then \<open>j\<close> from 1 to \<open>num_machines\<close>.\<close>

definition cct_row ::
  "int list \<Rightarrow> int list list \<Rightarrow> nat \<Rightarrow> nat \<Rightarrow> int list list \<Rightarrow> int list list" where
  "cct_row seq p num_machines i e =
     fold (cct_cell seq p i) [1..<Suc num_machines] (set2 e i 0 0)"

definition cct_table :: "int list \<Rightarrow> int list list \<Rightarrow> nat \<Rightarrow> int list list" where
  "cct_table seq p num_machines =
     fold (cct_row seq p num_machines) [1..<Suc (length seq)]
       (zeros2 (length seq + 1) (num_machines + 1))"

definition calculate_completion_times ::
  "int list \<Rightarrow> int list list \<Rightarrow> nat \<Rightarrow> int \<Rightarrow> cct_result" where
  "calculate_completion_times seq p num_machines return_array =
     (let e = cct_table seq p num_machines
      in if return_array > 0 then Table e
         else Scalar (get2 e (length seq) num_machines))"

section \<open>calculate\_idle\_times\<close>

text \<open>
  \<^verbatim>\<open>idle_time\<close> is a numpy vector of \<open>n\<close> zeros, indexed by job id minus one with
  bounds checking and index wrap-around both switched off: the cell that
  \<^verbatim>\<open>idle_time[k]\<close> names is the one \<open>k\<close> elements after the start of the vector, inside
  the vector or not. The model therefore keeps the memory at and around the vector, as
  a function from this offset \<open>k\<close> to the content of the cell. The offsets \<open>0 .. n - 1\<close>
  are the vector; the other cells hold, when the function starts, what the argument
  \<open>outside\<close> says. A store at an offset outside \<open>0 .. n - 1\<close> changes the cell at that
  offset, which is not part of the vector, and a load there reads it. What such a store
  destroys in the running program is not modelled (the table \<^verbatim>\<open>e\<close>, the matrix and the
  sequence are kept apart from this memory): a statement about the entries of the
  returned vector is therefore made only for sequences whose stores are all inside the
  vector.
\<close>

type_synonym memory = "int \<Rightarrow> int"

definition vec_in_bounds :: "nat \<Rightarrow> int \<Rightarrow> bool" where
  "vec_in_bounds n k = (0 \<le> k \<and> k < int n)"

text \<open>\<^verbatim>\<open>zeros((sequence_length), dtype='int32')\<close>: the cells of the new vector are 0.\<close>

definition idle_alloc :: "memory \<Rightarrow> nat \<Rightarrow> memory" where
  "idle_alloc outside n = (\<lambda>k. if vec_in_bounds n k then 0 else outside k)"

text \<open>The index \<^verbatim>\<open>sequence[i] - 1\<close> of the stores of outer iteration \<open>i\<close>.\<close>

definition idle_index :: "int list \<Rightarrow> nat \<Rightarrow> int" where
  "idle_index seq i = seq ! i - 1"

definition cit_cell ::
  "int list \<Rightarrow> int list list \<Rightarrow> int list list \<Rightarrow> nat \<Rightarrow> nat \<Rightarrow> memory \<Rightarrow> memory" where
  "cit_cell seq p e i j idle_time =
     idle_time (idle_index seq i :=
       add32 (idle_time (idle_index seq i))
          (sub32 (sub32 (get2 e (i + 1) j) (pt p (seq ! i - 1) (j - 1))) (get2 e i j)))"

definition cit_row ::
  "int list \<Rightarrow> int list list \<Rightarrow> nat \<Rightarrow> int list list \<Rightarrow> nat \<Rightarrow> memory \<Rightarrow> memory" where
  "cit_row seq p num_machines e i idle_time =
     fold (cit_cell seq p e i) [1..<Suc num_machines] (idle_time (idle_index seq i := 0))"

text \<open>The memory when the two loops have run.\<close>

definition cit_memory :: "memory \<Rightarrow> int list \<Rightarrow> int list list \<Rightarrow> nat \<Rightarrow> memory" where
  "cit_memory outside seq p num_machines =
     (case calculate_completion_times seq p num_machines 1 of
        Table e \<Rightarrow>
          fold (cit_row seq p num_machines e) [0..<length seq]
            (idle_alloc outside (length seq))
      | Scalar v \<Rightarrow> idle_alloc outside (length seq))"

text \<open>The value returned is the vector: the cells at the offsets \<open>0 .. n - 1\<close>.\<close>

definition calculate_idle_times ::
  "memory \<Rightarrow> int list \<Rightarrow> int list list \<Rightarrow> nat \<Rightarrow> int list" where
  "calculate_idle_times outside seq p num_machines =
     map (\<lambda>k. cit_memory outside seq p num_machines (int k)) [0..<length seq]"

section \<open>taillard\_acceleration\<close>

text \<open>
  The working tables \<^verbatim>\<open>e\<close>, \<^verbatim>\<open>q\<close>, \<^verbatim>\<open>f\<close>, \<^verbatim>\<open>ms\<close> (and \<^verbatim>\<open>fl\<close> of
  \<^verbatim>\<open>tie_breaking\<close>) are C arrays on the stack, declared without an initialiser: when
  the function starts they hold whatever the stack held. The model takes these initial
  contents as an argument of type \<open>scratch\<close>, and a table is a function from its two
  indices to the cell's value. This is the C program as long as every index stays inside
  the declared bounds \<^verbatim>\<open>[801][61]\<close>; the indices used are listed by \<open>ta_accesses\<close>
  below.
\<close>

record scratch =
  e_init :: "nat \<Rightarrow> nat \<Rightarrow> int"
  q_init :: "nat \<Rightarrow> nat \<Rightarrow> int"
  f_init :: "nat \<Rightarrow> nat \<Rightarrow> int"
  ms_init :: "nat \<Rightarrow> int"
  fl_init :: "nat \<Rightarrow> nat \<Rightarrow> int"

definition upd2 :: "(nat \<Rightarrow> nat \<Rightarrow> int) \<Rightarrow> nat \<Rightarrow> nat \<Rightarrow> int \<Rightarrow> (nat \<Rightarrow> nat \<Rightarrow> int)" where
  "upd2 a i j v = a(i := (a i)(j := v))"

text \<open>
  The state of the main loop: the three tables and the counters \<^verbatim>\<open>iq\<close> and
  \<^verbatim>\<open>jq\<close>. \<^verbatim>\<open>jq\<close> is assigned in every iteration before it is read, so its value
  before the loop does not matter (0 in \<open>ta_main\<close>).
\<close>

record ta_state =
  e_tab :: "nat \<Rightarrow> nat \<Rightarrow> int"
  q_tab :: "nat \<Rightarrow> nat \<Rightarrow> int"
  f_tab :: "nat \<Rightarrow> nat \<Rightarrow> int"
  iq :: nat
  jq :: nat

text \<open>Lines 62 to 73: the cells \<^verbatim>\<open>e[i][j]\<close> and \<^verbatim>\<open>q[iq][jq]\<close>.\<close>

definition ta_eq_cell :: "int list \<Rightarrow> int list list \<Rightarrow> nat \<Rightarrow> nat \<Rightarrow> ta_state \<Rightarrow> ta_state" where
  "ta_eq_cell seq p i j s =
     (let s1 = s\<lparr>jq := jq s - 1\<rparr>;
          pe = pt p (seq ! (i - 1) - 1) (j - 1);
          s2 = s1\<lparr>e_tab := upd2 (e_tab s1) i j
                  (if e_tab s1 i (j - 1) > e_tab s1 (i - 1) j
                   then add32 (e_tab s1 i (j - 1)) pe
                   else add32 (e_tab s1 (i - 1) j) pe)\<rparr>;
          pq = pt p (seq ! (iq s2 - 1) - 1) (jq s2 - 1)
      in s2\<lparr>q_tab := upd2 (q_tab s2) (iq s2) (jq s2)
              (if q_tab s2 (iq s2) (jq s2 + 1) > q_tab s2 (iq s2 + 1) (jq s2)
               then add32 (q_tab s2 (iq s2) (jq s2 + 1)) pq
               else add32 (q_tab s2 (iq s2 + 1) (jq s2)) pq)\<rparr>)"

text \<open>Lines 76 to 79: the cell \<^verbatim>\<open>f[i][j]\<close>.\<close>

definition ta_f_cell :: "int list list \<Rightarrow> int \<Rightarrow> nat \<Rightarrow> nat \<Rightarrow> ta_state \<Rightarrow> ta_state" where
  "ta_f_cell p inserting_job i j s =
     s\<lparr>f_tab := upd2 (f_tab s) i j
         (if f_tab s i (j - 1) > e_tab s (i - 1) j
          then add32 (f_tab s i (j - 1)) (pt p (inserting_job - 1) (j - 1))
          else add32 (e_tab s (i - 1) j) (pt p (inserting_job - 1) (j - 1)))\<rparr>"

text \<open>The body of the inner loop of the main loop (lines 58 to 79).\<close>

definition ta_cell ::
  "int list \<Rightarrow> int list list \<Rightarrow> int \<Rightarrow> nat \<Rightarrow> nat \<Rightarrow> nat \<Rightarrow> ta_state \<Rightarrow> ta_state" where
  "ta_cell seq p inserting_job num_machines i j s =
     (let s1 = (if i = 1
                then s\<lparr>e_tab := upd2 (e_tab s) 0 j 0,
                       q_tab := upd2 (q_tab s) (length seq + 1) (num_machines + 1 - j) 0\<rparr>
                else s);
          s2 = (if i < length seq + 1 then ta_eq_cell seq p i j s1 else s1)
      in ta_f_cell p inserting_job i j s2)"

text \<open>The body of the main loop (lines 47 to 79).\<close>

definition ta_row ::
  "int list \<Rightarrow> int list list \<Rightarrow> int \<Rightarrow> nat \<Rightarrow> nat \<Rightarrow> ta_state \<Rightarrow> ta_state" where
  "ta_row seq p inserting_job num_machines i s =
     (let s1 = (if i < length seq + 1
                then (let s' = s\<lparr>e_tab := upd2 (e_tab s) i 0 0, iq := iq s - 1\<rparr>
                      in s'\<lparr>q_tab := upd2 (q_tab s') (iq s') (num_machines + 1) 0\<rparr>)
                else s);
          s2 = s1\<lparr>f_tab := upd2 (f_tab s1) i 0 0, jq := num_machines + 1\<rparr>
      in fold (ta_cell seq p inserting_job num_machines i) [1..<Suc num_machines] s2)"

definition ta_main :: "scratch \<Rightarrow> int list \<Rightarrow> int list list \<Rightarrow> int \<Rightarrow> nat \<Rightarrow> ta_state" where
  "ta_main st seq p inserting_job num_machines =
     fold (ta_row seq p inserting_job num_machines) [1..<length seq + 2]
       \<lparr>e_tab = e_init st, q_tab = q_init st, f_tab = f_init st,
        iq = length seq + 1, jq = 0\<rparr>"

text \<open>
  The second loop (lines 83 to 94): the makespan \<^verbatim>\<open>ms[i]\<close> of every position, and the
  running best. Its state is \<open>(ms, best_makespan, best_position)\<close>.
\<close>

definition ms_cell :: "ta_state \<Rightarrow> nat \<Rightarrow> nat \<Rightarrow> (nat \<Rightarrow> int) \<Rightarrow> (nat \<Rightarrow> int)" where
  "ms_cell s i j ms =
     (let tmp = add32 (f_tab s i j) (q_tab s i j)
      in if tmp > ms i then ms(i := tmp) else ms)"

definition ms_row ::
  "ta_state \<Rightarrow> nat \<Rightarrow> nat \<Rightarrow> (nat \<Rightarrow> int) \<times> int \<times> nat \<Rightarrow> (nat \<Rightarrow> int) \<times> int \<times> nat" where
  "ms_row s num_machines i = (\<lambda>(ms, best_makespan, best_position).
     (let ms' = fold (ms_cell s i) [1..<Suc num_machines] (ms(i := 0))
      in if ms' i < best_makespan \<or> best_makespan = 0
         then (ms', ms' i, i)
         else (ms', best_makespan, best_position)))"

definition ta_select ::
  "scratch \<Rightarrow> ta_state \<Rightarrow> nat \<Rightarrow> nat \<Rightarrow> (nat \<Rightarrow> int) \<times> int \<times> nat" where
  "ta_select st s n num_machines =
     fold (ms_row s num_machines) [1..<n + 2] (ms_init st, 0, 0)"

section \<open>tie\_breaking\<close>

text \<open>
  The tables \<^verbatim>\<open>e\<close>, \<^verbatim>\<open>f\<close> and \<^verbatim>\<open>ms\<close> are passed as the caller left them; the
  counter \<^verbatim>\<open>num_ties\<close> is never read and is left out. The loop over \<open>j\<close> of the
  branch "not last position" (lines 149 to 157) has the state \<open>(fl, it)\<close>.
\<close>

definition tb_cell ::
  "int list list \<Rightarrow> (nat \<Rightarrow> nat \<Rightarrow> int) \<Rightarrow> (nat \<Rightarrow> nat \<Rightarrow> int) \<Rightarrow> int \<Rightarrow> nat \<Rightarrow> nat \<Rightarrow>
   (nat \<Rightarrow> nat \<Rightarrow> int) \<times> int \<Rightarrow> (nat \<Rightarrow> nat \<Rightarrow> int) \<times> int" where
  "tb_cell p e f inserting_job i j = (\<lambda>(fl, it).
     (let it1 = add32 it
                  (sub32 (add32 (sub32 (f i j) (e i j)) (pt p (int i - 1) (j - 1)))
                     (pt p (inserting_job - 1) (j - 1)));
          it2 = (if sub32 (fl i (j - 1)) (f i j) > 0
                 then add32 it1 (sub32 (fl i (j - 1)) (f i j)) else it1);
          fl' = (if fl i (j - 1) > f i j
                 then upd2 fl i j (add32 (fl i (j - 1)) (pt p (int i - 1) (j - 1)))
                 else upd2 fl i j (add32 (fl i j) (pt p (int i - 1) (j - 1))))
      in (fl', it2)))"

text \<open>The branch "last position" (lines 143 and 144).\<close>

definition tb_last_cell ::
  "int list list \<Rightarrow> (nat \<Rightarrow> nat \<Rightarrow> int) \<Rightarrow> (nat \<Rightarrow> nat \<Rightarrow> int) \<Rightarrow> int \<Rightarrow> nat \<Rightarrow> nat \<Rightarrow> int \<Rightarrow> int" where
  "tb_last_cell p e f inserting_job sequence_length j it =
     add32 it
       (sub32 (sub32 (f sequence_length j) (e (sequence_length - 1) j))
          (pt p (inserting_job - 1) (j - 1)))"

text \<open>The body of the loop over \<open>i\<close>; its state is \<open>(fl, best_position, itbp)\<close>.\<close>

definition tb_row ::
  "int list list \<Rightarrow> (nat \<Rightarrow> nat \<Rightarrow> int) \<Rightarrow> (nat \<Rightarrow> nat \<Rightarrow> int) \<Rightarrow> (nat \<Rightarrow> int) \<Rightarrow> int \<Rightarrow> int \<Rightarrow>
   nat \<Rightarrow> nat \<Rightarrow> nat \<Rightarrow> (nat \<Rightarrow> nat \<Rightarrow> int) \<times> nat \<times> int \<Rightarrow> (nat \<Rightarrow> nat \<Rightarrow> int) \<times> nat \<times> int" where
  "tb_row p e f ms inserting_job best_makespan sequence_length num_machines i =
     (\<lambda>(fl, best_position, itbp).
       if ms i = best_makespan
       then (let (fl', it) =
                   (if i = sequence_length
                    then (fl, fold (tb_last_cell p e f inserting_job sequence_length)
                                [1..<Suc num_machines] 0)
                    else fold (tb_cell p e f inserting_job i) [2..<Suc num_machines]
                           (upd2 fl i 1 (add32 (f i 1) (pt p (int i - 1) 0)), 0))
             in if it < itbp then (fl', i, it) else (fl', best_position, itbp))
       else (fl, best_position, itbp))"

definition tie_breaking ::
  "(nat \<Rightarrow> nat \<Rightarrow> int) \<Rightarrow> int list list \<Rightarrow> (nat \<Rightarrow> nat \<Rightarrow> int) \<Rightarrow> (nat \<Rightarrow> nat \<Rightarrow> int) \<Rightarrow>
   (nat \<Rightarrow> int) \<Rightarrow> int \<Rightarrow> nat \<Rightarrow> nat \<Rightarrow> nat \<Rightarrow> nat" where
  "tie_breaking fl p e f ms inserting_job best_position sequence_length num_machines =
     (let best_makespan = ms best_position
      in fst (snd (fold
           (tb_row p e f ms inserting_job best_makespan sequence_length num_machines)
           [1..<sequence_length + 2] (fl, best_position, 2000000))))"

text \<open>The whole function: it returns \<open>(best_position, best_makespan)\<close>.\<close>

definition taillard_acceleration ::
  "scratch \<Rightarrow> int list \<Rightarrow> int list list \<Rightarrow> int \<Rightarrow> nat \<Rightarrow> int \<Rightarrow> nat \<times> int" where
  "taillard_acceleration st seq p inserting_job num_machines use_tie_breaking =
     (let s = ta_main st seq p inserting_job num_machines;
          (ms, best_makespan, best_position) = ta_select st s (length seq) num_machines
      in if use_tie_breaking > 0
         then (tie_breaking (fl_init st) p (e_tab s) (f_tab s) ms inserting_job
                 best_position (length seq) num_machines, best_makespan)
         else (best_position, best_makespan))"

section \<open>Indices used by taillard\_acceleration\<close>

text \<open>
  The indices at which the two loops of \<open>taillard_acceleration\<close> read and write
  \<^verbatim>\<open>e\<close>, \<^verbatim>\<open>q\<close>, \<^verbatim>\<open>f\<close> and \<^verbatim>\<open>ms\<close>, statement by statement, as
  \<open>(array, row, column)\<close> (column 0 for the vector \<^verbatim>\<open>ms\<close>). Both operands of a
  comparison are read, and the branch taken reads one of them again, so the indices do
  not depend on the data. The counters \<^verbatim>\<open>iq\<close> and \<^verbatim>\<open>jq\<close> are threaded as the
  source threads them; the state is \<open>(iq, jq, accesses so far)\<close>.
\<close>

datatype array = Arr_e | Arr_q | Arr_f | Arr_ms

type_synonym access = "array \<times> nat \<times> nat"

definition acc_eq_cell :: "nat \<Rightarrow> nat \<Rightarrow> nat \<times> nat \<times> access list \<Rightarrow> nat \<times> nat \<times> access list" where
  "acc_eq_cell i j = (\<lambda>(iq, jq0, tr).
     (let jq = jq0 - 1
      in (iq, jq, tr @ [(Arr_e, i, j - 1), (Arr_e, i - 1, j), (Arr_e, i, j),
                       (Arr_q, iq, jq + 1), (Arr_q, iq + 1, jq), (Arr_q, iq, jq)])))"

definition acc_f_cell :: "nat \<Rightarrow> nat \<Rightarrow> nat \<times> nat \<times> access list \<Rightarrow> nat \<times> nat \<times> access list" where
  "acc_f_cell i j = (\<lambda>(iq, jq, tr).
     (iq, jq, tr @ [(Arr_f, i, j - 1), (Arr_e, i - 1, j), (Arr_f, i, j)]))"

definition acc_cell ::
  "nat \<Rightarrow> nat \<Rightarrow> nat \<Rightarrow> nat \<Rightarrow> nat \<times> nat \<times> access list \<Rightarrow> nat \<times> nat \<times> access list" where
  "acc_cell sequence_length num_machines i j = (\<lambda>(iq, jq, tr).
     (let s1 = (if i = 1
                then (iq, jq, tr @ [(Arr_e, 0, j),
                                    (Arr_q, sequence_length + 1, num_machines + 1 - j)])
                else (iq, jq, tr));
          s2 = (if i < sequence_length + 1 then acc_eq_cell i j s1 else s1)
      in acc_f_cell i j s2))"

definition acc_row ::
  "nat \<Rightarrow> nat \<Rightarrow> nat \<Rightarrow> nat \<times> nat \<times> access list \<Rightarrow> nat \<times> nat \<times> access list" where
  "acc_row sequence_length num_machines i = (\<lambda>(iq0, jq, tr).
     (let (iq, tr1) = (if i < sequence_length + 1
                       then (iq0 - 1, tr @ [(Arr_e, i, 0), (Arr_q, iq0 - 1, num_machines + 1)])
                       else (iq0, tr))
      in fold (acc_cell sequence_length num_machines i) [1..<Suc num_machines]
           (iq, num_machines + 1, tr1 @ [(Arr_f, i, 0)])))"

definition acc_ms_row :: "nat \<Rightarrow> nat \<Rightarrow> access list \<Rightarrow> access list" where
  "acc_ms_row num_machines i tr =
     fold (\<lambda>j t. t @ [(Arr_f, i, j), (Arr_q, i, j), (Arr_ms, i, 0)]) [1..<Suc num_machines]
       (tr @ [(Arr_ms, i, 0)]) @ [(Arr_ms, i, 0)]"

definition ta_accesses :: "nat \<Rightarrow> nat \<Rightarrow> access list" where
  "ta_accesses sequence_length num_machines =
     (let (iq, jq, tr) = fold (acc_row sequence_length num_machines)
                           [1..<sequence_length + 2] (sequence_length + 1, 0, [])
      in fold (acc_ms_row num_machines) [1..<sequence_length + 2] tr)"

text \<open>The declared bounds \<^verbatim>\<open>[801][61]\<close> (and \<^verbatim>\<open>ms[801]\<close>).\<close>

definition in_declared_bounds :: "access \<Rightarrow> bool" where
  "in_declared_bounds a = (case a of (arr, row, col) \<Rightarrow> row \<le> 800 \<and> col \<le> 60)"

section \<open>Inputs the claims speak about\<close>

text \<open>
  A matrix is rectangular when every row has \<open>cols\<close> columns, and non-negative when
  every entry is at least 0. Job ids are 1-based: a job id is in range when it names a row.
\<close>

definition rectangular :: "int list list \<Rightarrow> nat \<Rightarrow> bool" where
  "rectangular p cols = (\<forall>row\<in>set p. length row = cols)"

definition nonnegative :: "int list list \<Rightarrow> bool" where
  "nonnegative p = (\<forall>row\<in>set p. \<forall>x\<in>set row. 0 \<le> x)"

definition jobs_in_range :: "int list list \<Rightarrow> int list \<Rightarrow> bool" where
  "jobs_in_range p jobs = (\<forall>job\<in>set jobs. 1 \<le> job \<and> job \<le> int (length p))"

text \<open>
  The processing time of a job on machine \<open>j\<close> (1-based), as every loop reads it:
  \<^verbatim>\<open>processing_times[job - 1, j - 1]\<close>. \<open>job_total\<close> is the mathematical sum of a job's
  times over the machines \<open>1 .. m\<close>, and \<open>total_time\<close> the sum over a list of jobs.
\<close>

definition job_time :: "int list list \<Rightarrow> int \<Rightarrow> nat \<Rightarrow> int" where
  "job_time p job j = pt p (job - 1) (j - 1)"

definition job_total :: "int list list \<Rightarrow> nat \<Rightarrow> int \<Rightarrow> int" where
  "job_total p m job = (\<Sum>j\<leftarrow>[1..<Suc m]. job_time p job j)"

definition total_time :: "int list list \<Rightarrow> nat \<Rightarrow> int list \<Rightarrow> int" where
  "total_time p m jobs = (\<Sum>job\<leftarrow>jobs. job_total p m job)"

text \<open>
  The brute-force evaluation that the specification compares \<open>taillard_acceleration\<close>
  with, written from the specification's words: the job is inserted before the existing
  element at the 1-based slot \<open>k\<close> (\<open>k = n + 1\<close> appends), and the scalar of
  \<open>calculate_completion_times\<close> is taken on the resulting sequence.
\<close>

definition insert_at :: "int list \<Rightarrow> int \<Rightarrow> nat \<Rightarrow> int list" where
  "insert_at seq job k = take (k - 1) seq @ [job] @ drop (k - 1) seq"

definition makespan_at :: "int list \<Rightarrow> int list list \<Rightarrow> int \<Rightarrow> nat \<Rightarrow> nat \<Rightarrow> int" where
  "makespan_at seq p job num_machines k =
     (case calculate_completion_times (insert_at seq job k) p num_machines 0 of
        Scalar v \<Rightarrow> v
      | Table e \<Rightarrow> 0)"

text \<open>
  \<open>first_min v k b pos\<close>: among \<open>v 1, \<dots>, v k\<close> the value \<open>b\<close> is the minimum and \<open>pos\<close>
  is the smallest index where it is taken.
\<close>

definition first_min :: "(nat \<Rightarrow> int) \<Rightarrow> nat \<Rightarrow> int \<Rightarrow> nat \<Rightarrow> bool" where
  "first_min v k b pos =
     (1 \<le> pos \<and> pos \<le> k \<and> v pos = b \<and> (\<forall>i. 1 \<le> i \<and> i \<le> k \<longrightarrow> b \<le> v i) \<and>
      (\<forall>i. 1 \<le> i \<and> i < pos \<longrightarrow> b < v i))"

text \<open>A stack whose every cell holds the same value \<open>x\<close> when the function starts.\<close>

definition uniform_scratch :: "int \<Rightarrow> scratch" where
  "uniform_scratch x =
     \<lparr>e_init = (\<lambda>i j. x), q_init = (\<lambda>i j. x), f_init = (\<lambda>i j. x), ms_init = (\<lambda>i. x),
      fl_init = (\<lambda>i j. x)\<rparr>"

section \<open>The recurrences as functions\<close>

text \<open>
  The three tables are filled by recurrences over rows. A row is a function from the
  machine index to a value; the addition is a parameter, so that the same recurrence is
  available with the 32-bit addition of the code (\<open>add32\<close>) and with the addition of the
  integers (\<open>(+)\<close>). \<open>fwd_row add t r\<close> is the row of completion times of a job with
  times \<open>t\<close> placed after a row \<open>r\<close>:
  \<^verbatim>\<open>e[i][j] = max(e[i][j-1], e[i-1][j]) + p\<close>, with \<^verbatim>\<open>e[i][0] = 0\<close>.
\<close>

fun fwd_row :: "(int \<Rightarrow> int \<Rightarrow> int) \<Rightarrow> (nat \<Rightarrow> int) \<Rightarrow> (nat \<Rightarrow> int) \<Rightarrow> nat \<Rightarrow> int" where
  "fwd_row add t r 0 = 0"
| "fwd_row add t r (Suc j) = add (max (fwd_row add t r j) (r (Suc j))) (t (Suc j))"

definition fwd_rows ::
  "(int \<Rightarrow> int \<Rightarrow> int) \<Rightarrow> (nat \<Rightarrow> int) list \<Rightarrow> (nat \<Rightarrow> int) \<Rightarrow> nat \<Rightarrow> int" where
  "fwd_rows add ts r = fold (fwd_row add) ts r"

text \<open>Row \<open>i\<close> of the table \<^verbatim>\<open>e\<close>: the first \<open>i\<close> jobs of the sequence, from the zero row.\<close>

definition E_row :: "(int \<Rightarrow> int \<Rightarrow> int) \<Rightarrow> int list list \<Rightarrow> int list \<Rightarrow> nat \<Rightarrow> nat \<Rightarrow> int" where
  "E_row add p seq i = fwd_rows add (map (job_time p) (take i seq)) (\<lambda>j. 0)"

text \<open>
  The tail recurrence \<^verbatim>\<open>q[iq][jq] = max(q[iq][jq+1], q[iq+1][jq]) + p\<close> runs from column
  \<open>m + 1\<close> (which holds 0) down to column 1; \<open>bwd_aux\<close> counts the \<open>d\<close> steps taken, so
  that it is at column \<open>m + 1 - d\<close>.
\<close>

fun bwd_aux ::
  "(int \<Rightarrow> int \<Rightarrow> int) \<Rightarrow> nat \<Rightarrow> (nat \<Rightarrow> int) \<Rightarrow> (nat \<Rightarrow> int) \<Rightarrow> nat \<Rightarrow> int" where
  "bwd_aux add m t q 0 = 0"
| "bwd_aux add m t q (Suc d) = add (max (bwd_aux add m t q d) (q (m - d))) (t (m - d))"

definition bwd_row ::
  "(int \<Rightarrow> int \<Rightarrow> int) \<Rightarrow> nat \<Rightarrow> (nat \<Rightarrow> int) \<Rightarrow> (nat \<Rightarrow> int) \<Rightarrow> nat \<Rightarrow> int" where
  "bwd_row add m t q j = bwd_aux add m t q (m + 1 - j)"

text \<open>Row \<open>i\<close> of \<^verbatim>\<open>q\<close> (the jobs from position \<open>i\<close> on) and row \<open>i\<close> of \<^verbatim>\<open>f\<close>.\<close>

definition Q_row ::
  "(int \<Rightarrow> int \<Rightarrow> int) \<Rightarrow> nat \<Rightarrow> int list list \<Rightarrow> int list \<Rightarrow> nat \<Rightarrow> nat \<Rightarrow> int" where
  "Q_row add m p seq i = foldr (bwd_row add m) (map (job_time p) (drop (i - 1) seq)) (\<lambda>j. 0)"

definition F_row ::
  "(int \<Rightarrow> int \<Rightarrow> int) \<Rightarrow> int list list \<Rightarrow> int list \<Rightarrow> int \<Rightarrow> nat \<Rightarrow> nat \<Rightarrow> int" where
  "F_row add p seq ins i = fwd_row add (job_time p ins) (E_row add p seq (i - 1))"

text \<open>
  The makespan of one position, \<^verbatim>\<open>ms[i] = max(0, max_j (f[i][j] + q[i][j]))\<close>, and the
  running choice of the second loop, whose state is \<open>(best_makespan, best_position)\<close>.
\<close>

definition ms_val :: "(int \<Rightarrow> int \<Rightarrow> int) \<Rightarrow> nat \<Rightarrow> (nat \<Rightarrow> int) \<Rightarrow> (nat \<Rightarrow> int) \<Rightarrow> int" where
  "ms_val add m f q = fold (\<lambda>j acc. max acc (add (f j) (q j))) [1..<Suc m] 0"

definition MS_val ::
  "(int \<Rightarrow> int \<Rightarrow> int) \<Rightarrow> nat \<Rightarrow> int list list \<Rightarrow> int list \<Rightarrow> int \<Rightarrow> nat \<Rightarrow> int" where
  "MS_val add m p seq ins i = ms_val add m (F_row add p seq ins i) (Q_row add m p seq i)"

definition pick :: "(nat \<Rightarrow> int) \<Rightarrow> nat \<Rightarrow> int \<times> nat \<Rightarrow> int \<times> nat" where
  "pick v i = (\<lambda>(best_makespan, best_position).
     if v i < best_makespan \<or> best_makespan = 0 then (v i, i)
     else (best_makespan, best_position))"

definition best_of :: "(nat \<Rightarrow> int) \<Rightarrow> nat \<Rightarrow> int \<times> nat" where
  "best_of v k = fold (pick v) [1..<Suc k] (0, 0)"

section \<open>Loop invariants\<close>

text \<open>
  Times that are non-negative on the machines \<open>1 .. m\<close>, and rows that start at 0 and do
  not decrease up to column \<open>m\<close>.
\<close>

definition nonneg_times :: "nat \<Rightarrow> (nat \<Rightarrow> int) \<Rightarrow> bool" where
  "nonneg_times m t = (\<forall>j. 1 \<le> j \<and> j \<le> m \<longrightarrow> 0 \<le> t j)"

definition good_row :: "nat \<Rightarrow> (nat \<Rightarrow> int) \<Rightarrow> bool" where
  "good_row m r = (r 0 = 0 \<and> (\<forall>j<m. r j \<le> r (Suc j)))"

text \<open>
  \<open>calculate_completion_times\<close>, before column \<open>j\<close> of row \<open>i\<close>: the table keeps its
  shape, the rows above \<open>i\<close> and the columns of row \<open>i\<close> before \<open>j\<close> hold the recurrence.
\<close>

definition shape :: "nat \<Rightarrow> nat \<Rightarrow> int list list \<Rightarrow> bool" where
  "shape n m e = (length e = Suc n \<and> (\<forall>row\<in>set e. length row = Suc m))"

definition cct_inv ::
  "int list \<Rightarrow> int list list \<Rightarrow> nat \<Rightarrow> nat \<Rightarrow> nat \<Rightarrow> int list list \<Rightarrow> bool" where
  "cct_inv seq p m i j e =
     (shape (length seq) m e \<and>
      (\<forall>i' j'. i' < i \<longrightarrow> j' \<le> m \<longrightarrow> get2 e i' j' = E_row add32 p seq i' j') \<and>
      (\<forall>j'<j. get2 e i j' = E_row add32 p seq i j'))"

text \<open>
  The idle time of the job at position \<open>i\<close> (counted from 0) as the specification
  defines it, the sum over the machines \<open>j = 1 .. m\<close> of
  \<open>E[i + 1][j] - p[job][j - 1] - E[i][j]\<close>, in 32-bit arithmetic and over a given
  table \<open>e\<close>.
\<close>

definition idle_term :: "int list \<Rightarrow> int list list \<Rightarrow> int list list \<Rightarrow> nat \<Rightarrow> nat \<Rightarrow> int" where
  "idle_term seq p e i j =
     sub32 (sub32 (get2 e (i + 1) j) (pt p (seq ! i - 1) (j - 1))) (get2 e i j)"

definition idle_sum :: "int list \<Rightarrow> int list list \<Rightarrow> nat \<Rightarrow> int list list \<Rightarrow> nat \<Rightarrow> int" where
  "idle_sum seq p m e i = fold (\<lambda>j acc. add32 acc (idle_term seq p e i j)) [1..<Suc m] 0"

text \<open>
  The same sum before machine \<open>j\<close>: it is not negative and at most \<open>j - 1\<close> times the
  bound \<open>B\<close>.
\<close>

definition idle_inv :: "int \<Rightarrow> nat \<Rightarrow> int \<Rightarrow> bool" where
  "idle_inv B j acc = (0 \<le> acc \<and> acc \<le> int (j - 1) * B)"

text \<open>No cell of the vector of length \<open>n\<close> is negative.\<close>

definition vec_nonneg :: "nat \<Rightarrow> (int \<Rightarrow> int) \<Rightarrow> bool" where
  "vec_nonneg n mem = (\<forall>k. vec_in_bounds n k \<longrightarrow> 0 \<le> mem k)"

text \<open>The indices of \<open>ta_accesses\<close>: rows up to \<open>n + 1\<close>, columns up to \<open>m + 1\<close>.\<close>

definition acc_ok :: "nat \<Rightarrow> nat \<Rightarrow> nat \<times> nat \<times> access list \<Rightarrow> bool" where
  "acc_ok n m s =
     (fst s \<le> n + 1 \<and> fst (snd s) \<le> m + 1 \<and>
      (\<forall>a\<in>set (snd (snd s)). fst (snd a) \<le> n + 1 \<and> snd (snd a) \<le> m + 1))"

text \<open>
  The main loop of \<open>taillard_acceleration\<close>, before column \<open>j\<close> of iteration \<open>i\<close>. For
  \<^verbatim>\<open>e\<close>: the rows \<open>1 .. i - 1\<close> are complete, row 0 is zero (in the first iteration only
  up to column \<open>j - 1\<close>), and row \<open>i\<close> is complete before column \<open>j\<close>. For \<^verbatim>\<open>q\<close>, filled
  from the last row upwards: the rows \<open>i'\<close> with \<open>n + 1 - i' < i\<close> are complete, row
  \<open>n + 1\<close> is zero (in the first iteration only from column \<open>m + 2 - j\<close> on), and the
  current row \<open>n + 1 - i\<close> is complete from column \<open>m + 2 - j\<close> on. For \<^verbatim>\<open>f\<close>: the rows
  \<open>1 .. i - 1\<close> are complete and row \<open>i\<close> is complete before column \<open>j\<close>.
\<close>

definition e_inv :: "int list \<Rightarrow> int list list \<Rightarrow> nat \<Rightarrow> nat \<Rightarrow> nat \<Rightarrow> (nat \<Rightarrow> nat \<Rightarrow> int) \<Rightarrow> bool" where
  "e_inv seq p m i j e =
     ((\<forall>i' j'. 1 \<le> i' \<and> i' < i \<and> i' \<le> length seq \<and> j' \<le> m \<longrightarrow> e i' j' = E_row add32 p seq i' j') \<and>
      (\<forall>j'. 1 \<le> j' \<and> j' \<le> m \<and> (i = 1 \<longrightarrow> j' < j) \<longrightarrow> e 0 j' = 0) \<and>
      (i \<le> length seq \<longrightarrow> (\<forall>j'<j. e i j' = E_row add32 p seq i j')))"

definition q_inv :: "int list \<Rightarrow> int list list \<Rightarrow> nat \<Rightarrow> nat \<Rightarrow> nat \<Rightarrow> (nat \<Rightarrow> nat \<Rightarrow> int) \<Rightarrow> bool" where
  "q_inv seq p m i j q =
     ((\<forall>i' j'. 1 \<le> i' \<and> i' \<le> length seq \<and> length seq + 1 - i' < i \<and> 1 \<le> j' \<and> j' \<le> m
          \<longrightarrow> q i' j' = Q_row add32 m p seq i' j') \<and>
      (\<forall>j'. 1 \<le> j' \<and> j' \<le> m \<and> (i = 1 \<longrightarrow> m + 1 - j < j') \<longrightarrow> q (length seq + 1) j' = 0) \<and>
      (i \<le> length seq \<longrightarrow>
         (\<forall>j'. m + 1 - j < j' \<and> j' \<le> m + 1 \<longrightarrow>
            q (length seq + 1 - i) j' = Q_row add32 m p seq (length seq + 1 - i) j')))"

definition f_inv ::
  "int list \<Rightarrow> int list list \<Rightarrow> int \<Rightarrow> nat \<Rightarrow> nat \<Rightarrow> nat \<Rightarrow> (nat \<Rightarrow> nat \<Rightarrow> int) \<Rightarrow> bool" where
  "f_inv seq p ins m i j f =
     ((\<forall>i' j'. 1 \<le> i' \<and> i' < i \<and> j' \<le> m \<longrightarrow> f i' j' = F_row add32 p seq ins i' j') \<and>
      (\<forall>j'<j. f i j' = F_row add32 p seq ins i j'))"

definition ta_inv ::
  "int list \<Rightarrow> int list list \<Rightarrow> int \<Rightarrow> nat \<Rightarrow> nat \<Rightarrow> nat \<Rightarrow> ta_state \<Rightarrow> bool" where
  "ta_inv seq p ins m i j s =
     (e_inv seq p m i j (e_tab s) \<and> q_inv seq p m i j (q_tab s) \<and>
      f_inv seq p ins m i j (f_tab s) \<and>
      iq s = length seq + 1 - min i (length seq) \<and>
      jq s = (if i \<le> length seq then m + 2 - j else m + 1))"

text \<open>Between two iterations of the main loop, before iteration \<open>i\<close>.\<close>

definition ta_out ::
  "int list \<Rightarrow> int list list \<Rightarrow> int \<Rightarrow> nat \<Rightarrow> nat \<Rightarrow> ta_state \<Rightarrow> bool" where
  "ta_out seq p ins m i s =
     (e_inv seq p m i 0 (e_tab s) \<and> q_inv seq p m i 0 (q_tab s) \<and>
      f_inv seq p ins m i 0 (f_tab s) \<and>
      iq s = length seq + 1 - min (i - 1) (length seq))"

section \<open>Loops over index ranges\<close>

lemma fold_upt_inv:
  assumes "a \<le> b" and "I a s"
    and "\<And>k t. a \<le> k \<Longrightarrow> k < b \<Longrightarrow> I k t \<Longrightarrow> I (Suc k) (g k t)"
  shows "I b (fold g [a..<b] s)"
  using assms(1,3)
proof (induction b rule: dec_induct)
  case base
  show ?case using assms(2) by simp
next
  case (step n)
  then show ?case by simp
qed

section \<open>Scalar and table results agree\<close>

text \<open>
  Claim C7. The scalar that \<open>calculate_completion_times\<close> returns with
  \<open>return_array = 0\<close> is the entry at row \<open>n\<close> (the sequence length) and column
  \<open>num_machines\<close> of the table it returns with \<open>return_array = 1\<close> on the same
  arguments.
\<close>

theorem scalar_is_last_table_entry:
  "\<exists>e. calculate_completion_times seq p num_machines 1 = Table e \<and>
       calculate_completion_times seq p num_machines 0
         = Scalar (e ! length seq ! num_machines)"
  by (simp add: calculate_completion_times_def get2_def)

section \<open>Degenerate dimensions\<close>

lemma set2_zeros2_same: "set2 (zeros2 r c) i j 0 = zeros2 r c"
proof (cases "i < r")
  case True
  have "(replicate c (0::int))[j := 0] = replicate c 0"
    by (cases "j < c") (simp_all add: list_eq_iff_nth_eq nth_list_update)
  with True show ?thesis
    by (simp add: set2_def zeros2_def list_eq_iff_nth_eq nth_list_update)
next
  case False
  then show ?thesis by (simp add: set2_def zeros2_def list_update_beyond)
qed

lemma fold_fixed: "(\<And>x. x \<in> set xs \<Longrightarrow> g x z = z) \<Longrightarrow> fold g xs z = z"
  by (induction xs) simp_all

lemma cct_table_no_machines: "cct_table seq p 0 = zeros2 (length seq + 1) 1"
  unfolding cct_table_def
  by (simp only: add_0 One_nat_def [symmetric], rule fold_fixed)
    (simp add: cct_row_def set2_zeros2_same)

lemma cct_table_no_jobs: "cct_table [] p m = zeros2 1 (m + 1)"
  by (simp add: cct_table_def)

lemma get2_zeros2: "i < r \<Longrightarrow> j < c \<Longrightarrow> get2 (zeros2 r c) i j = 0"
  by (simp add: get2_def zeros2_def)

text \<open>
  Claim C6, as the code has it. \<open>calculate_completion_times\<close> validates nothing: called
  with a sequence of length zero or with zero machines it reports no failure and returns
  the result of its last line, which is the table \<^verbatim>\<open>zeros((n + 1, m + 1))\<close> unchanged
  when \<open>return_array > 0\<close> and the scalar 0 otherwise.
\<close>

theorem zero_dimension_returns_zeros:
  assumes "length seq = 0 \<or> num_machines = 0"
  shows "calculate_completion_times seq p num_machines return_array =
           (if return_array > 0
            then Table (zeros2 (length seq + 1) (num_machines + 1))
            else Scalar 0)"
  using assms
  by (auto simp: calculate_completion_times_def cct_table_no_machines cct_table_no_jobs
      get2_zeros2)

theorem zero_dimension_returns_zeros_witness:
  "calculate_completion_times [] [[3, 2], [2, 4]] 2 1 = Table [[0, 0, 0]]"
  using zero_dimension_returns_zeros [of "[]" 2 "[[3, 2], [2, 4]]" 1]
  by (simp add: zeros2_def numeral_3_eq_3)

text \<open>
  The claim as stated fails: an empty sequence, and a machine count of zero, each yield
  a result (the scalar 0, or the all-zero table) and no failure.
\<close>

theorem zero_dimension_counterexample:
  "calculate_completion_times [] [[3, 2], [2, 4]] 2 0 = Scalar 0 \<and>
   calculate_completion_times [1, 2] [[3, 2], [2, 4]] 0 0 = Scalar 0 \<and>
   calculate_completion_times [1, 2] [[3, 2], [2, 4]] 0 1 = Table [[0], [0], [0]]"
  by (simp add: calculate_completion_times_def cct_table_no_machines cct_table_no_jobs
      get2_zeros2 zeros2_def numeral_3_eq_3 get2_def)

section \<open>Scenario 2\<close>

text \<open>
  Claim C4. With \<open>p[job1] = [3, 2]\<close>, \<open>p[job2] = [2, 4]\<close>, \<open>p[job3] = [1, 1]\<close> and two
  machines, inserting job 3 into the sequence \<open>[job1, job2]\<close> without tie breaking
  returns position 1 and makespan 10, whatever the working tables held before the call.
\<close>

theorem scenario_2_insertion:
  "taillard_acceleration st [1, 2] [[3, 2], [2, 4], [1, 1]] 3 2 0 = (1, 10)"
  by code_simp

section \<open>Indices and the declared bounds\<close>

lemma acc_cell_keeps:
  "x \<in> set (snd (snd s)) \<Longrightarrow> x \<in> set (snd (snd (acc_cell n m i j s)))"
  by (cases s) (simp add: acc_cell_def acc_eq_cell_def acc_f_cell_def Let_def)

lemma fold_acc_cell_keeps:
  "x \<in> set (snd (snd t)) \<Longrightarrow> x \<in> set (snd (snd (fold (acc_cell n m i) js t)))"
  by (induction js arbitrary: t) (simp_all add: acc_cell_keeps)

lemma acc_row_keeps:
  "x \<in> set (snd (snd s)) \<Longrightarrow> x \<in> set (snd (snd (acc_row n m i s)))"
  by (cases s) (simp add: acc_row_def Let_def fold_acc_cell_keeps)

lemma fold_acc_row_keeps:
  "x \<in> set (snd (snd t)) \<Longrightarrow> x \<in> set (snd (snd (fold (acc_row n m) ks t)))"
  by (induction ks arbitrary: t) (simp_all add: acc_row_keeps)

lemma acc_ms_row_keeps: "x \<in> set tr \<Longrightarrow> x \<in> set (acc_ms_row m i tr)"
proof -
  assume x: "x \<in> set tr"
  have "x \<in> set (fold (\<lambda>j t. t @ [(Arr_f, i, j), (Arr_q, i, j), (Arr_ms, i, 0)]) js t)"
    if "x \<in> set t" for js t
    using that by (induction js arbitrary: t) simp_all
  then show ?thesis using x by (simp add: acc_ms_row_def)
qed

lemma fold_acc_ms_row_keeps: "x \<in> set tr \<Longrightarrow> x \<in> set (fold (acc_ms_row m) ks tr)"
  by (induction ks arbitrary: tr) (simp_all add: acc_ms_row_keeps)

lemma ta_accesses_keeps:
  assumes "x \<in> set (snd (snd (fold (acc_row n m) ks (n + 1, 0, []))))"
    and "[1..<n + 2] = ks @ js"
  shows "x \<in> set (ta_accesses n m)"
proof -
  define s1 where "s1 = fold (acc_row n m) ks (n + 1, 0, [])"
  define s2 where "s2 = fold (acc_row n m) js s1"
  have "x \<in> set (snd (snd s1))" using assms(1) by (simp only: s1_def)
  then have "x \<in> set (snd (snd s2))"
    unfolding s2_def by (rule fold_acc_row_keeps)
  then have "x \<in> set (fold (acc_ms_row m) [1..<n + 2] (snd (snd s2)))"
    by (rule fold_acc_ms_row_keeps)
  moreover have "fold (acc_row n m) [1..<n + 2] (n + 1, 0, []) = s2"
    by (simp only: assms(2) fold_append s2_def s1_def comp_def)
  ultimately show ?thesis
    by (simp add: ta_accesses_def split_beta)
qed

lemma acc_row_writes_f0: "(Arr_f, i, 0) \<in> set (snd (snd (acc_row n m i s)))"
  by (cases s) (simp add: acc_row_def Let_def fold_acc_cell_keeps split: prod.splits)

lemma acc_row_first_writes_q:
  "i < n + 1 \<Longrightarrow> (Arr_q, qi - 1, m + 1) \<in> set (snd (snd (acc_row n m i (qi, qj, tr))))"
  by (simp add: acc_row_def Let_def fold_acc_cell_keeps)

lemma ta_accesses_row_beyond: "(Arr_f, n + 1, 0) \<in> set (ta_accesses n m)"
proof (rule ta_accesses_keeps [where ks = "[1..<n + 2]" and js = "[]"])
  have "[1..<n + 2] = [1..<n + 1] @ [n + 1]" by simp
  then show "(Arr_f, n + 1, 0) \<in> set (snd (snd (fold (acc_row n m) [1..<n + 2] (n + 1, 0, []))))"
    by (simp only: fold_append comp_def fold_simps acc_row_writes_f0)
qed simp

lemma ta_accesses_column_beyond:
  assumes "1 \<le> n"
  shows "(Arr_q, n, m + 1) \<in> set (ta_accesses n m)"
proof (rule ta_accesses_keeps [where ks = "[1]" and js = "[2..<n + 2]"])
  show "(Arr_q, n, m + 1) \<in> set (snd (snd (fold (acc_row n m) [1] (n + 1, 0, []))))"
    using acc_row_first_writes_q [of 1 n "n + 1" m 0 "[]"] assms by simp
  have "[1..<n + 2] = 1 # [Suc 1..<n + 2]" by (rule upt_conv_Cons) simp
  then show "[1..<n + 2] = [1] @ [2..<n + 2]"
    by (simp only: append_Cons append_Nil Suc_1)
qed

lemma acc_cell_ok:
  "acc_ok n m s \<and> (i < n + 1 \<longrightarrow> fst s \<le> n) \<Longrightarrow> i \<le> n + 1 \<Longrightarrow> j \<le> m \<Longrightarrow>
   acc_ok n m (acc_cell n m i j s) \<and> (i < n + 1 \<longrightarrow> fst (acc_cell n m i j s) \<le> n)"
  by (cases s) (auto simp: acc_ok_def acc_cell_def acc_eq_cell_def acc_f_cell_def Let_def)

lemma acc_row_ok:
  assumes "acc_ok n m s" "i \<le> n + 1"
  shows "acc_ok n m (acc_row n m i s)"
proof -
  obtain qi qj tr where s: "s = (qi, qj, tr)" by (cases s)
  define s0 where "s0 = (if i < n + 1
      then (qi - 1, m + 1, tr @ [(Arr_e, i, 0), (Arr_q, qi - 1, m + 1), (Arr_f, i, 0)])
      else (qi, m + 1, tr @ [(Arr_f, i, 0)]))"
  let ?I = "\<lambda>t. acc_ok n m t \<and> (i < n + 1 \<longrightarrow> fst t \<le> n)"
  have ok0: "?I s0"
    using assms by (auto simp: s acc_ok_def s0_def)
  have "?I (fold (acc_cell n m i) [1..<Suc m] s0)"
  proof (rule fold_upt_inv [where I = "\<lambda>k. ?I" and g = "acc_cell n m i"])
    show "1 \<le> Suc m" by simp
    show "?I s0" by (rule ok0)
    show "?I (acc_cell n m i k t)" if "k < Suc m" "?I t" for k t
      using that assms(2) by (intro acc_cell_ok) simp_all
  qed
  moreover have "acc_row n m i s = fold (acc_cell n m i) [1..<Suc m] s0"
    by (simp add: s acc_row_def s0_def Let_def)
  ultimately show ?thesis by simp
qed

lemma acc_ms_row_ok:
  assumes "\<forall>a\<in>set tr. fst (snd a) \<le> n + 1 \<and> snd (snd a) \<le> m + 1" "i \<le> n + 1"
  shows "\<forall>a\<in>set (acc_ms_row m i tr). fst (snd a) \<le> n + 1 \<and> snd (snd a) \<le> m + 1"
proof -
  let ?ok = "\<lambda>t. \<forall>a\<in>set t. fst (snd a) \<le> n + 1 \<and> snd (snd a) \<le> m + 1"
  let ?g = "\<lambda>j t. t @ [(Arr_f, i, j), (Arr_q, i, j), (Arr_ms, i, 0)]"
  have "?ok (fold ?g [1..<Suc m] (tr @ [(Arr_ms, i, 0)]))"
  proof (rule fold_upt_inv [where I = "\<lambda>k. ?ok" and g = ?g])
    show "1 \<le> Suc m" by simp
    show "?ok (tr @ [(Arr_ms, i, 0)])" using assms by simp
    show "?ok (?g k t)" if "k < Suc m" "?ok t" for k t
      using that assms(2) by simp
  qed
  then show ?thesis using assms(2) by (simp add: acc_ms_row_def)
qed

lemma ta_accesses_within:
  "\<forall>a\<in>set (ta_accesses n m). fst (snd a) \<le> n + 1 \<and> snd (snd a) \<le> m + 1"
proof -
  define s where "s = fold (acc_row n m) [1..<n + 2] (n + 1, 0, [])"
  let ?ok = "\<lambda>t. \<forall>a\<in>set t. fst (snd a) \<le> n + 1 \<and> snd (snd a) \<le> m + 1"
  have "acc_ok n m s"
    unfolding s_def
  proof (rule fold_upt_inv [where I = "\<lambda>k. acc_ok n m" and g = "acc_row n m"])
    show "1 \<le> n + 2" by simp
    show "acc_ok n m (n + 1, 0, [])" by (simp add: acc_ok_def)
    show "acc_ok n m (acc_row n m k t)" if "k < n + 2" "acc_ok n m t" for k t
      using that by (intro acc_row_ok) simp_all
  qed
  then have tr: "?ok (snd (snd s))" by (simp add: acc_ok_def)
  have "?ok (fold (acc_ms_row m) [1..<n + 2] (snd (snd s)))"
  proof (rule fold_upt_inv [where I = "\<lambda>k. ?ok" and g = "acc_ms_row m"])
    show "1 \<le> n + 2" by simp
    show "?ok (snd (snd s))" by (rule tr)
    show "?ok (acc_ms_row m k t)" if "k < n + 2" "?ok t" for k t
      using that by (intro acc_ms_row_ok) simp_all
  qed
  then show ?thesis by (simp add: ta_accesses_def s_def split_beta)
qed

lemma ta_accesses_in_bounds:
  assumes "n \<le> 799" "m \<le> 59"
  shows "\<forall>a\<in>set (ta_accesses n m). in_declared_bounds a"
proof
  fix a assume "a \<in> set (ta_accesses n m)"
  then have "fst (snd a) \<le> n + 1 \<and> snd (snd a) \<le> m + 1"
    using ta_accesses_within by blast
  then show "in_declared_bounds a"
    using assms by (cases a) (simp add: in_declared_bounds_def)
qed

lemma ta_accesses_empty_sequence:
  "\<forall>a\<in>set (ta_accesses 0 m). fst (snd a) \<le> 1 \<and> snd (snd a) \<le> m"
proof -
  let ?ok = "\<lambda>t :: access list. \<forall>a\<in>set t. fst (snd a) \<le> 1 \<and> snd (snd a) \<le> m"
  let ?I = "\<lambda>s :: nat \<times> nat \<times> access list. ?ok (snd (snd s))"
  have row: "?I (fold (acc_cell 0 m 1) [1..<Suc m] (1, m + 1, [(Arr_f, 1, 0)]))"
  proof (rule fold_upt_inv [where I = "\<lambda>k. ?I" and g = "acc_cell 0 m 1"])
    show "1 \<le> Suc m" by simp
    show "?I (1, m + 1, [(Arr_f, 1, 0)])" by simp
    show "?I (acc_cell 0 m 1 k t)" if "1 \<le> k" "k < Suc m" "?I t" for k t
      using that by (cases t) (auto simp: acc_cell_def acc_f_cell_def Let_def)
  qed
  have main: "fold (acc_row 0 m) [1..<0 + 2] (0 + 1, 0, [])
                = fold (acc_cell 0 m 1) [1..<Suc m] (1, m + 1, [(Arr_f, 1, 0)])"
    by (simp add: acc_row_def upt_conv_Cons del: upt_Suc)
  have ms: "?ok (acc_ms_row m 1 t)" if "?ok t" for t
  proof -
    let ?g = "\<lambda>j t. t @ [(Arr_f, 1, j), (Arr_q, 1, j), (Arr_ms, 1, 0)]"
    have "?ok (fold ?g [1..<Suc m] (t @ [(Arr_ms, 1, 0)]))"
    proof (rule fold_upt_inv [where I = "\<lambda>k. ?ok" and g = ?g])
      show "1 \<le> Suc m" by simp
      show "?ok (t @ [(Arr_ms, 1, 0)])" using that by simp
      show "?ok (?g k u)" if "k < Suc m" "?ok u" for k u
        using that by simp
    qed
    then show ?thesis by (simp add: acc_ms_row_def del: upt_Suc)
  qed
  have "ta_accesses 0 m
          = acc_ms_row m 1 (snd (snd (fold (acc_cell 0 m 1) [1..<Suc m] (1, m + 1, [(Arr_f, 1, 0)]))))"
    unfolding ta_accesses_def main by (simp add: split_beta upt_conv_Cons del: upt_Suc)
  then show ?thesis using ms [OF row] by simp
qed

text \<open>
  Claim C2 (safety), evaluated on the code. The claim says that for a sequence of length
  at most 800 and at most 60 machines every index into \<^verbatim>\<open>e[801][61]\<close>,
  \<^verbatim>\<open>q[801][61]\<close>, \<^verbatim>\<open>f[801][61]\<close> and \<^verbatim>\<open>ms[801]\<close> is at most 800 (row) and 60
  (column). At length 800 and 60 machines the main loop writes \<^verbatim>\<open>f[801][0]\<close> and
  \<^verbatim>\<open>q[800][61]\<close>: one row and one column beyond the declared bounds. The indices stay
  inside them up to length 799 and 59 machines (\<open>ta_accesses_in_bounds\<close>).
\<close>

theorem capacity_off_by_one:
  "(Arr_f, 801, 0) \<in> set (ta_accesses 800 60) \<and> \<not> in_declared_bounds (Arr_f, 801, 0) \<and>
   (Arr_q, 800, 61) \<in> set (ta_accesses 800 60) \<and> \<not> in_declared_bounds (Arr_q, 800, 61)"
  using ta_accesses_row_beyond [of 800 60] ta_accesses_column_beyond [of 800 60]
  by (simp add: in_declared_bounds_def)

section \<open>The completion-time table\<close>

lemma E_row_0: "E_row add p seq 0 = (\<lambda>j. 0)"
  by (simp add: E_row_def fwd_rows_def)

lemma E_row_Suc:
  "i < length seq \<Longrightarrow>
   E_row add p seq (Suc i) = fwd_row add (job_time p (seq ! i)) (E_row add p seq i)"
  by (simp add: E_row_def fwd_rows_def take_Suc_conv_app_nth)

lemma E_row_col0: "i \<le> length seq \<Longrightarrow> E_row add p seq i 0 = 0"
  by (cases i) (simp_all add: E_row_0 E_row_Suc)

lemma max_if_gt: "(if (a::int) > b then add a x else add b x) = add (max a b) x"
  by (simp add: max_def)

lemma max_if_gt': "(if (b::int) > a then add b x else add a x) = add (max a b) x"
  by (auto simp: max_def)

lemma shape_zeros2: "shape n m (zeros2 (Suc n) (Suc m))"
  by (simp add: shape_def zeros2_def)

lemma shape_set2: "shape n m e \<Longrightarrow> shape n m (set2 e i j v)"
proof -
  assume sh: "shape n m e"
  show ?thesis
  proof (cases "i < length e")
    case True
    then have "length ((e ! i)[j := v]) = Suc m"
      using sh by (simp add: shape_def)
    with sh show ?thesis
      using set_update_subset_insert [of e i "(e ! i)[j := v]"]
      by (auto simp: shape_def set2_def)
  next
    case False
    with sh show ?thesis by (simp add: set2_def list_update_beyond)
  qed
qed

lemma get2_set2:
  "shape n m e \<Longrightarrow> i \<le> n \<Longrightarrow> j \<le> m \<Longrightarrow>
   get2 (set2 e i j v) i' j' = (if i' = i \<and> j' = j then v else get2 e i' j')"
  by (auto simp: shape_def set2_def get2_def nth_list_update)

lemma cct_cell_inv:
  assumes inv: "cct_inv seq p m i j e" and i: "1 \<le> i" "i \<le> length seq" and j: "1 \<le> j" "j \<le> m"
  shows "cct_inv seq p m i (Suc j) (cct_cell seq p i j e)"
proof -
  let ?n = "length seq"
  let ?E = "E_row add32 p seq"
  define e1 where "e1 = (if i = 1 then set2 e 0 j 0 else e)"
  define v where "v = add32 (max (get2 e1 i (j - 1)) (get2 e1 (i - 1) j))
                        (pt p (seq ! (i - 1) - 1) (j - 1))"
  have sh: "shape ?n m e" using inv by (simp add: cct_inv_def)
  have sh1: "shape ?n m e1" using sh by (simp add: e1_def shape_set2)
  have E0: "?E 0 j = 0" by (simp add: E_row_0)
  have old: "get2 e1 i' j' = get2 e i' j'" if "i' \<noteq> 0 \<or> j' \<noteq> j" for i' j'
    using that sh j by (auto simp: e1_def get2_set2 [where n = ?n and m = m])
  have row0: "get2 e1 0 j = 0"
  proof (cases "i = 1")
    case True
    then show ?thesis using sh j by (simp add: e1_def get2_set2 [where n = ?n and m = m])
  next
    case False
    then have "0 < i" using i by simp
    then have "get2 e 0 j = ?E 0 j" using inv j by (simp add: cct_inv_def)
    with False show ?thesis by (simp add: e1_def E0)
  qed
  have below: "get2 e1 i' j' = ?E i' j'" if "i' < i" "j' \<le> m" for i' j'
  proof (cases "i' = 0 \<and> j' = j")
    case True
    then show ?thesis using row0 by (simp add: E_row_0)
  next
    case False
    then have "get2 e1 i' j' = get2 e i' j'" using old by blast
    then show ?thesis using inv that by (simp add: cct_inv_def)
  qed
  have cur: "get2 e1 i j' = ?E i j'" if "j' < j" for j'
  proof -
    have "get2 e1 i j' = get2 e i j'" using old i by simp
    then show ?thesis using inv that by (simp add: cct_inv_def)
  qed
  have cell: "cct_cell seq p i j e = set2 e1 i j v"
    by (simp add: cct_cell_def e1_def v_def Let_def max_def)
  obtain i0 where i0: "i = Suc i0" using i by (cases i) auto
  obtain j0 where j0: "j = Suc j0" using j by (cases j) auto
  have "v = ?E i j"
    using below [of i0 j] cur [of j0] i j
    by (simp add: v_def i0 j0 E_row_Suc job_time_def)
  then have new: "get2 (set2 e1 i j v) i' j' = (if i' = i \<and> j' = j then ?E i j else get2 e1 i' j')"
    for i' j'
    using sh1 i j by (simp add: get2_set2 [where n = ?n and m = m])
  show ?thesis
    unfolding cell cct_inv_def
  proof (intro conjI allI impI)
    show "shape ?n m (set2 e1 i j v)" using sh1 by (rule shape_set2)
    show "get2 (set2 e1 i j v) i' j' = ?E i' j'" if "i' < i" "j' \<le> m" for i' j'
      using that below by (simp add: new)
    show "get2 (set2 e1 i j v) i j' = ?E i j'" if "j' < Suc j" for j'
      using that cur [of j'] by (cases "j' = j") (simp_all add: new)
  qed
qed

lemma cct_row_inv:
  assumes inv: "cct_inv seq p m i 0 e" and i: "1 \<le> i" "i \<le> length seq"
  shows "cct_inv seq p m (Suc i) 0 (cct_row seq p m i e)"
proof -
  let ?n = "length seq"
  have sh: "shape ?n m e" using inv by (simp add: cct_inv_def)
  have start: "cct_inv seq p m i 1 (set2 e i 0 0)"
    using inv i sh
    by (auto simp: cct_inv_def shape_set2 get2_set2 [where n = ?n and m = m] E_row_col0)
  define e' where "e' = fold (cct_cell seq p i) [1..<Suc m] (set2 e i 0 0)"
  have "cct_inv seq p m i (Suc m) e'"
    unfolding e'_def
  proof (rule fold_upt_inv [where I = "cct_inv seq p m i" and g = "cct_cell seq p i"])
    show "1 \<le> Suc m" by simp
    show "cct_inv seq p m i 1 (set2 e i 0 0)" by (rule start)
    show "cct_inv seq p m i (Suc k) (cct_cell seq p i k t)"
      if "1 \<le> k" "k < Suc m" "cct_inv seq p m i k t" for k t
      using that i by (intro cct_cell_inv) simp_all
  qed
  then have fin: "shape (length seq) m e'"
    "\<And>i' j'. i' < i \<Longrightarrow> j' \<le> m \<Longrightarrow> get2 e' i' j' = E_row add32 p seq i' j'"
    "\<And>j'. j' \<le> m \<Longrightarrow> get2 e' i j' = E_row add32 p seq i j'"
    by (simp_all add: cct_inv_def less_Suc_eq_le)
  have "get2 e' i' j' = E_row add32 p seq i' j'" if "i' < Suc i" "j' \<le> m" for i' j'
    using that fin(2) [of i' j'] fin(3) [of j'] by (cases "i' = i") simp_all
  with fin(1) have "cct_inv seq p m (Suc i) 0 e'"
    by (simp add: cct_inv_def)
  then show ?thesis
    by (simp only: e'_def cct_row_def)
qed

lemma cct_table_inv: "cct_inv seq p m (Suc (length seq)) 0 (cct_table seq p m)"
  unfolding cct_table_def
proof (rule fold_upt_inv [where I = "\<lambda>i. cct_inv seq p m i 0" and g = "cct_row seq p m"])
  show "1 \<le> Suc (length seq)" by simp
  show "cct_inv seq p m 1 0 (zeros2 (length seq + 1) (m + 1))"
    by (simp add: cct_inv_def shape_zeros2 get2_zeros2 E_row_0)
  show "cct_inv seq p m (Suc k) 0 (cct_row seq p m k t)"
    if "1 \<le> k" "k < Suc (length seq)" "cct_inv seq p m k 0 t" for k t
    using that by (intro cct_row_inv) simp_all
qed

lemma cct_table_cells:
  "i \<le> length seq \<Longrightarrow> j \<le> m \<Longrightarrow> get2 (cct_table seq p m) i j = E_row add32 p seq i j"
  using cct_table_inv [of seq p m] by (simp add: cct_inv_def)

lemma cct_table_shape: "shape (length seq) m (cct_table seq p m)"
  using cct_table_inv [of seq p m] by (simp add: cct_inv_def)

lemma job_total_sum: "job_total p m job = (\<Sum>j = 1..m. job_time p job j)"
proof -
  have "job_total p m job = sum (job_time p job) (set [1..<Suc m])"
    unfolding job_total_def by (rule interv_sum_list_conv_sum_set_nat)
  also have "set [1..<Suc m] = {1..m}"
    by (simp only: set_upt atLeastLessThanSuc_atLeastAtMost)
  finally show ?thesis .
qed

lemma add32_exact: "- 2147483648 \<le> a + b \<Longrightarrow> a + b < 2147483648 \<Longrightarrow> add32 a b = a + b"
  by (simp add: add32_def int32_def)

lemma sub32_exact: "- 2147483648 \<le> a - b \<Longrightarrow> a - b < 2147483648 \<Longrightarrow> sub32 a b = a - b"
  by (simp add: sub32_def int32_def)

lemma good_row_zero: "good_row m (\<lambda>j. 0)"
  by (simp add: good_row_def)

lemma good_row_mono:
  assumes "good_row m r" and "j \<le> j'"
  shows "j' \<le> m \<Longrightarrow> r j \<le> r j'"
  using assms(2)
proof (induction j' rule: dec_induct)
  case base
  show ?case by simp
next
  case (step k)
  then have "r k \<le> r (Suc k)" using assms(1) by (simp add: good_row_def)
  with step show ?case by simp
qed

lemma good_row_nonneg: "good_row m r \<Longrightarrow> j \<le> m \<Longrightarrow> 0 \<le> r j"
  using good_row_mono [of m r 0 j] by (simp add: good_row_def)

lemma fwd_row_good:
  assumes "nonneg_times m t"
  shows "good_row m (fwd_row (+) t r)"
proof -
  have "fwd_row (+) t r j \<le> fwd_row (+) t r (Suc j)" if "j < m" for j
  proof -
    have "0 \<le> t (Suc j)" using assms that by (simp add: nonneg_times_def)
    then show ?thesis by simp
  qed
  then show ?thesis by (simp add: good_row_def)
qed

lemma fwd_row_ge: "1 \<le> j \<Longrightarrow> r j + t j \<le> fwd_row (+) t r j"
  by (cases j) simp_all

lemma fwd_row_ge_left: "fwd_row (+) t r j + t (Suc j) \<le> fwd_row (+) t r (Suc j)"
  by simp

lemma fwd_row_bound:
  assumes "good_row m r" "nonneg_times m t"
  shows "j \<le> m \<Longrightarrow> fwd_row (+) t r j \<le> r j + (\<Sum>l = 1..j. t l)"
proof (induction j)
  case 0
  then show ?case using assms by (simp add: good_row_def)
next
  case (Suc j)
  have "0 \<le> (\<Sum>l = 1..j. t l)"
    using Suc.prems assms(2) by (intro sum_nonneg) (simp add: nonneg_times_def)
  moreover have "r j \<le> r (Suc j)" using Suc.prems assms(1) by (simp add: good_row_def)
  ultimately show ?case using Suc by simp
qed

lemma fwd_row_cong:
  "(\<And>l. 1 \<le> l \<Longrightarrow> l \<le> j \<Longrightarrow> r l = r' l) \<Longrightarrow> fwd_row add t r j = fwd_row add t r' j"
  by (induction j) simp_all

lemma fwd_row_wrap:
  assumes t: "nonneg_times m t" and r: "\<And>l. 1 \<le> l \<Longrightarrow> l \<le> m \<Longrightarrow> 0 \<le> r l"
    and small: "fwd_row (+) t r m < 2147483648"
  shows "j \<le> m \<Longrightarrow> fwd_row add32 t r j = fwd_row (+) t r j"
proof (induction j)
  case 0
  show ?case by simp
next
  case (Suc j)
  have g: "good_row m (fwd_row (+) t r)" using t by (rule fwd_row_good)
  have "fwd_row (+) t r (Suc j) \<le> fwd_row (+) t r m"
    using g Suc.prems by (intro good_row_mono [of m]) simp_all
  then have hi: "fwd_row (+) t r (Suc j) < 2147483648" using small by simp
  have lo: "0 \<le> fwd_row (+) t r (Suc j)" using g Suc.prems by (rule good_row_nonneg)
  have "fwd_row add32 t r (Suc j) = add32 (max (fwd_row (+) t r j) (r (Suc j))) (t (Suc j))"
    using Suc by simp
  also have "\<dots> = fwd_row (+) t r (Suc j)"
    using hi lo by (simp add: add32_exact)
  finally show ?case .
qed

lemma job_time_nonneg:
  assumes "rectangular p cols" "m \<le> cols" "nonnegative p" "1 \<le> job" "job \<le> int (length p)"
  shows "nonneg_times m (job_time p job)"
  unfolding nonneg_times_def
proof (intro allI impI)
  fix j assume j: "1 \<le> j \<and> j \<le> m"
  let ?r = "nat (job - 1)"
  have r: "?r < length p" using assms(4,5) by simp
  then have mem: "p ! ?r \<in> set p" by simp
  then have len: "length (p ! ?r) = cols" using assms(1) by (simp add: rectangular_def)
  then have "j - 1 < length (p ! ?r)" using j assms(2) by arith
  then have "p ! ?r ! (j - 1) \<in> set (p ! ?r)" by simp
  then have "0 \<le> p ! ?r ! (j - 1)" using mem assms(3) by (simp add: nonnegative_def)
  then show "0 \<le> job_time p job j"
    by (simp add: job_time_def pt_def)
qed

lemma fwd_rows_good:
  "\<forall>t\<in>set ts. nonneg_times m t \<Longrightarrow> good_row m r \<Longrightarrow> good_row m (fwd_rows (+) ts r)"
  by (induction ts arbitrary: r) (simp_all add: fwd_rows_def fwd_row_good)

lemma fwd_rows_bound:
  "\<forall>t\<in>set ts. nonneg_times m t \<Longrightarrow> good_row m r \<Longrightarrow>
   fwd_rows (+) ts r m \<le> r m + (\<Sum>t\<leftarrow>ts. \<Sum>l = 1..m. t l)"
proof (induction ts arbitrary: r)
  case Nil
  show ?case by (simp add: fwd_rows_def)
next
  case (Cons t ts)
  have t: "nonneg_times m t" using Cons.prems by simp
  have "fwd_rows (+) (t # ts) r m = fwd_rows (+) ts (fwd_row (+) t r) m"
    by (simp add: fwd_rows_def)
  also have "\<dots> \<le> fwd_row (+) t r m + (\<Sum>t\<leftarrow>ts. \<Sum>l = 1..m. t l)"
    using Cons.prems t by (intro Cons.IH) (simp_all add: fwd_row_good)
  also have "fwd_row (+) t r m \<le> r m + (\<Sum>l = 1..m. t l)"
    using Cons.prems(2) t by (intro fwd_row_bound [of m]) simp_all
  finally show ?case by simp
qed

lemma total_time_nonneg:
  assumes "\<forall>job\<in>set jobs. nonneg_times m (job_time p job)"
  shows "0 \<le> total_time p m jobs"
  unfolding total_time_def
  using assms
  by (intro sum_list_nonneg) (auto simp: nonneg_times_def job_total_sum intro!: sum_nonneg)

lemma total_time_append:
  "total_time p m (xs @ ys) = total_time p m xs + total_time p m ys"
  by (simp add: total_time_def)

lemma total_time_take:
  assumes "\<forall>job\<in>set jobs. nonneg_times m (job_time p job)"
  shows "total_time p m (take i jobs) \<le> total_time p m jobs"
proof -
  have "\<forall>job\<in>set (drop i jobs). nonneg_times m (job_time p job)"
    using assms by (meson in_set_dropD)
  then have "0 \<le> total_time p m (drop i jobs)" by (rule total_time_nonneg)
  moreover have "total_time p m jobs = total_time p m (take i jobs) + total_time p m (drop i jobs)"
    using total_time_append [of p m "take i jobs" "drop i jobs"] by simp
  ultimately show ?thesis by simp
qed

lemma total_time_drop:
  assumes "\<forall>job\<in>set jobs. nonneg_times m (job_time p job)"
  shows "total_time p m (drop i jobs) \<le> total_time p m jobs"
proof -
  have "\<forall>job\<in>set (take i jobs). nonneg_times m (job_time p job)"
    using assms by (meson in_set_takeD)
  then have "0 \<le> total_time p m (take i jobs)" by (rule total_time_nonneg)
  moreover have "total_time p m jobs = total_time p m (take i jobs) + total_time p m (drop i jobs)"
    using total_time_append [of p m "take i jobs" "drop i jobs"] by simp
  ultimately show ?thesis by simp
qed

lemma makespan_bound:
  assumes "\<forall>job\<in>set jobs. nonneg_times m (job_time p job)"
  shows "fwd_rows (+) (map (job_time p) jobs) (\<lambda>j. 0) m \<le> total_time p m jobs"
proof -
  have "fwd_rows (+) (map (job_time p) jobs) (\<lambda>j. 0) m
          \<le> 0 + (\<Sum>t\<leftarrow>map (job_time p) jobs. \<Sum>l = 1..m. t l)"
    using assms by (intro fwd_rows_bound) (simp_all add: good_row_zero)
  then show ?thesis by (simp add: total_time_def comp_def job_total_sum)
qed

lemma E_row_good:
  assumes "\<forall>job\<in>set seq. nonneg_times m (job_time p job)"
  shows "good_row m (E_row (+) p seq i)"
  unfolding E_row_def
  using assms by (intro fwd_rows_good) (auto simp: good_row_zero dest: in_set_takeD)

lemma E_row_bound:
  assumes "\<forall>job\<in>set seq. nonneg_times m (job_time p job)"
  shows "E_row (+) p seq i m \<le> total_time p m seq"
proof -
  have "\<forall>job\<in>set (take i seq). nonneg_times m (job_time p job)"
    using assms by (meson in_set_takeD)
  then have "E_row (+) p seq i m \<le> total_time p m (take i seq)"
    unfolding E_row_def by (rule makespan_bound)
  also have "\<dots> \<le> total_time p m seq" using assms by (rule total_time_take)
  finally show ?thesis .
qed

lemma E_row_wrap:
  assumes nn: "\<forall>job\<in>set seq. nonneg_times m (job_time p job)"
    and small: "total_time p m seq < 2147483648"
  shows "i \<le> length seq \<Longrightarrow> j \<le> m \<Longrightarrow> E_row add32 p seq i j = E_row (+) p seq i j"
proof (induction i arbitrary: j)
  case 0
  show ?case by (simp add: E_row_0)
next
  case (Suc i)
  let ?t = "job_time p (seq ! i)"
  have i: "i < length seq" using Suc.prems by simp
  have t: "nonneg_times m ?t" using nn i by simp
  have g: "good_row m (E_row (+) p seq i)" using nn by (rule E_row_good)
  have "fwd_row (+) ?t (E_row (+) p seq i) m = E_row (+) p seq (Suc i) m"
    using i by (simp add: E_row_Suc)
  also have "\<dots> \<le> total_time p m seq" using nn by (rule E_row_bound)
  finally have sm: "fwd_row (+) ?t (E_row (+) p seq i) m < 2147483648"
    using small by simp
  have "E_row add32 p seq (Suc i) j = fwd_row add32 ?t (E_row add32 p seq i) j"
    using i by (simp add: E_row_Suc)
  also have "\<dots> = fwd_row add32 ?t (E_row (+) p seq i) j"
    using Suc.prems i by (intro fwd_row_cong Suc.IH) simp_all
  also have "\<dots> = fwd_row (+) ?t (E_row (+) p seq i) j"
    using t sm Suc.prems(2) g by (intro fwd_row_wrap [of m]) (simp_all add: good_row_nonneg)
  finally show ?case using i by (simp add: E_row_Suc)
qed

lemma valid_jobs_nonneg:
  assumes "rectangular p cols" "m \<le> cols" "nonnegative p" "jobs_in_range p jobs"
  shows "\<forall>job\<in>set jobs. nonneg_times m (job_time p job)"
  using assms by (auto simp: jobs_in_range_def intro: job_time_nonneg)

text \<open>
  Claim C8, as the code has it. For a sequence of job ids in range and a rectangular
  non-negative matrix, provided the processing times of the sequence's jobs on the
  machines \<open>1 .. m\<close> sum to less than \<open>2^31\<close>, the table returned by
  \<open>calculate_completion_times\<close> is monotone along both axes:
  \<open>E[i][j] \<ge> E[i-1][j]\<close> and \<open>E[i][j] \<ge> E[i][j-1]\<close> for \<open>1 \<le> i \<le> n\<close>, \<open>1 \<le> j \<le> m\<close>.
\<close>

theorem completion_table_monotone:
  assumes "rectangular p cols" and "num_machines \<le> cols" and "nonnegative p"
    and "jobs_in_range p seq"
    and "total_time p num_machines seq < 2147483648"
  shows "\<exists>e. calculate_completion_times seq p num_machines 1 = Table e \<and>
             (\<forall>i j. 1 \<le> i \<and> i \<le> length seq \<and> 1 \<le> j \<and> j \<le> num_machines \<longrightarrow>
                e ! (i - 1) ! j \<le> e ! i ! j \<and> e ! i ! (j - 1) \<le> e ! i ! j)"
proof -
  let ?m = num_machines
  let ?e = "cct_table seq p ?m"
  have nn: "\<forall>job\<in>set seq. nonneg_times ?m (job_time p job)"
    using assms(1-4) by (rule valid_jobs_nonneg)
  have cell: "?e ! i ! j = E_row (+) p seq i j" if "i \<le> length seq" "j \<le> ?m" for i j
    using that cct_table_cells [of i seq j ?m p] E_row_wrap [OF nn assms(5), of i j]
    by (simp add: get2_def)
  have "?e ! (i - 1) ! j \<le> ?e ! i ! j \<and> ?e ! i ! (j - 1) \<le> ?e ! i ! j"
    if ij: "1 \<le> i \<and> i \<le> length seq \<and> 1 \<le> j \<and> j \<le> ?m" for i j
  proof -
    obtain i0 where i0: "i = Suc i0" using ij by (cases i) auto
    obtain j0 where j0: "j = Suc j0" using ij by (cases j) auto
    let ?t = "job_time p (seq ! i0)"
    have row: "E_row (+) p seq i = fwd_row (+) ?t (E_row (+) p seq i0)"
      using ij i0 by (simp add: E_row_Suc)
    have "0 \<le> ?t j" using nn ij i0 by (simp add: nonneg_times_def)
    moreover have "E_row (+) p seq i0 j + ?t j \<le> E_row (+) p seq i j"
      unfolding row using ij by (intro fwd_row_ge) simp
    ultimately have up: "E_row (+) p seq i0 j \<le> E_row (+) p seq i j" by simp
    have "good_row ?m (E_row (+) p seq i)" using nn by (rule E_row_good)
    then have left: "E_row (+) p seq i j0 \<le> E_row (+) p seq i j"
      using ij j0 by (intro good_row_mono [of ?m]) simp_all
    show ?thesis using up left ij by (simp add: cell i0 j0)
  qed
  then show ?thesis by (simp add: calculate_completion_times_def)
qed

theorem completion_table_monotone_witness:
  "\<exists>e. calculate_completion_times [1, 2] [[3, 2], [2, 4]] 2 1 = Table e \<and>
        e ! (2 - 1) ! 2 \<le> e ! 2 ! 2 \<and> e ! 2 ! (2 - 1) \<le> e ! 2 ! 2"
proof -
  have 1: "rectangular [[3, 2], [2, 4]] 2" by code_simp
  have 2: "nonnegative [[3, 2], [2, 4]]" by code_simp
  have 3: "jobs_in_range [[3, 2], [2, 4]] [1, 2]" by code_simp
  have 4: "total_time [[3, 2], [2, 4]] 2 [1, 2] < 2147483648" by code_simp
  from completion_table_monotone [OF 1 order_refl 2 3 4]
  obtain e where e: "calculate_completion_times [1, 2] [[3, 2], [2, 4]] 2 1 = Table e"
    and mono: "\<And>i j. 1 \<le> i \<and> i \<le> length [1, 2 :: int] \<and> 1 \<le> j \<and> j \<le> 2 \<Longrightarrow>
                e ! (i - 1) ! j \<le> e ! i ! j \<and> e ! i ! (j - 1) \<le> e ! i ! j"
    by blast
  from mono [of 2 2] have "e ! (2 - 1) ! 2 \<le> e ! 2 ! 2 \<and> e ! 2 ! (2 - 1) \<le> e ! 2 ! 2"
    by simp
  with e show ?thesis by blast
qed

text \<open>
  Without the bound the claim fails, since the cells are 32-bit: with the single job
  \<open>[2147483647, 1]\<close> the second cell wraps around and is below the first.
\<close>

theorem completion_table_monotone_counterexample:
  "calculate_completion_times [1] [[2147483647, 1]] 2 1
     = Table [[0, 0, 0], [0, 2147483647, - 2147483648]] \<and>
   \<not> [[0, 0, 0], [0, 2147483647, - 2147483648 :: int]] ! 1 ! (2 - 1)
      \<le> [[0, 0, 0], [0, 2147483647, - 2147483648]] ! 1 ! 2"
  by code_simp

section \<open>Stores of calculate\_idle\_times\<close>

text \<open>
  The inner loop changes one cell, the one at offset \<open>sequence[i] - 1\<close>, and leaves in it
  the idle time of the job at position \<open>i\<close>.
\<close>

lemma fold_cit_cell:
  "fold (cit_cell seq p e i) js mem =
     mem (idle_index seq i :=
       fold (\<lambda>j acc. add32 acc (idle_term seq p e i j)) js (mem (idle_index seq i)))"
  by (induction js arbitrary: mem) (simp_all add: cit_cell_def idle_term_def)

lemma cit_row_update:
  "cit_row seq p m e i mem = mem (idle_index seq i := idle_sum seq p m e i)"
  by (simp only: cit_row_def fold_cit_cell idle_sum_def fun_upd_same fun_upd_upd)

lemma cit_memory_fold:
  "cit_memory outside seq p m =
     fold (\<lambda>i mem. mem (idle_index seq i := idle_sum seq p m (cct_table seq p m) i))
       [0..<length seq] (idle_alloc outside (length seq))"
proof -
  have "cit_row seq p m e =
      (\<lambda>i mem. mem (idle_index seq i := idle_sum seq p m e i))" for e
    by (rule ext, rule ext, rule cit_row_update)
  then show ?thesis
    by (simp add: cit_memory_def calculate_completion_times_def)
qed

text \<open>A run of stores: a cell holds what the last store to it wrote.\<close>

lemma fold_updates_last:
  assumes "i < n" and "\<forall>i'. i < i' \<and> i' < n \<longrightarrow> idx i' \<noteq> idx i"
  shows "fold (\<lambda>i mem. mem (idx i := val i)) [0..<n] mem0 (idx i) = val i"
  using assms
proof (induction n)
  case 0
  then show ?case by simp
next
  case (Suc n)
  show ?case
  proof (cases "i = n")
    case True
    then show ?thesis by simp
  next
    case False
    with Suc.prems have i: "i < n" by simp
    then have "i < n \<and> n < Suc n" by simp
    with Suc.prems(2) have "idx n \<noteq> idx i" by blast
    then have ne: "idx i \<noteq> idx n" by (rule not_sym)
    have "\<forall>i'. i < i' \<and> i' < n \<longrightarrow> idx i' \<noteq> idx i" using Suc.prems by simp
    with i have IH: "fold (\<lambda>i mem. mem (idx i := val i)) [0..<n] mem0 (idx i) = val i"
      by (rule Suc.IH)
    have "fold (\<lambda>i mem. mem (idx i := val i)) [0..<Suc n] mem0
        = (fold (\<lambda>i mem. mem (idx i := val i)) [0..<n] mem0) (idx n := val n)"
      by simp
    then show ?thesis by (simp only: fun_upd_other [OF ne] IH)
  qed
qed

lemma fold_updates_other:
  assumes "\<forall>i<n. idx i \<noteq> k"
  shows "fold (\<lambda>i mem. mem (idx i := val i)) [0..<n] mem0 k = mem0 k"
  using assms
proof (induction n)
  case 0
  show ?case by simp
next
  case (Suc n)
  from Suc.prems have ne: "k \<noteq> idx n" by (simp add: neq_commute)
  from Suc.prems have "\<forall>i<n. idx i \<noteq> k" by simp
  then have IH: "fold (\<lambda>i mem. mem (idx i := val i)) [0..<n] mem0 k = mem0 k"
    by (rule Suc.IH)
  have "fold (\<lambda>i mem. mem (idx i := val i)) [0..<Suc n] mem0
      = (fold (\<lambda>i mem. mem (idx i := val i)) [0..<n] mem0) (idx n := val n)"
    by simp
  then show ?case by (simp only: fun_upd_other [OF ne] IH)
qed

lemma cit_memory_last:
  assumes "i < length seq" and "\<forall>i'. i < i' \<and> i' < length seq \<longrightarrow> seq ! i' \<noteq> seq ! i"
  shows "cit_memory outside seq p m (seq ! i - 1) = idle_sum seq p m (cct_table seq p m) i"
proof -
  have "\<forall>i'. i < i' \<and> i' < length seq \<longrightarrow> idle_index seq i' \<noteq> idle_index seq i"
    using assms(2) by (simp add: idle_index_def)
  from fold_updates_last [where idx = "idle_index seq", OF assms(1) this]
  show ?thesis by (simp add: cit_memory_fold idle_index_def)
qed

lemma cit_memory_other:
  assumes "\<forall>job\<in>set seq. k \<noteq> job - 1"
  shows "cit_memory outside seq p m k = idle_alloc outside (length seq) k"
proof -
  have "\<forall>i<length seq. idle_index seq i \<noteq> k"
    using assms by (auto simp: idle_index_def)
  from fold_updates_other [where idx = "idle_index seq", OF this]
  show ?thesis by (simp add: cit_memory_fold)
qed

lemma last_occurrence:
  assumes "x \<in> set xs"
  shows "\<exists>i<length xs. xs ! i = x \<and> (\<forall>i'. i < i' \<and> i' < length xs \<longrightarrow> xs ! i' \<noteq> xs ! i)"
proof -
  define S where "S = {i. i < length xs \<and> xs ! i = x}"
  define k where "k = Max S"
  have fin: "finite S" by (simp add: S_def)
  have ne: "S \<noteq> {}" using assms by (auto simp: S_def in_set_conv_nth)
  have "k \<in> S" unfolding k_def using fin ne by (rule Max_in)
  then have k: "k < length xs" "xs ! k = x" by (simp_all add: S_def)
  have "xs ! i' \<noteq> xs ! k" if "k < i'" "i' < length xs" for i'
  proof
    assume "xs ! i' = xs ! k"
    then have "i' \<in> S" using that k by (simp add: S_def)
    with fin have "i' \<le> k" unfolding k_def by (rule Max_ge)
    with that show False by simp
  qed
  with k show ?thesis by blast
qed

lemma length_calculate_idle_times:
  "length (calculate_idle_times outside seq p m) = length seq"
  by (simp add: calculate_idle_times_def)

lemma nth_calculate_idle_times:
  "k < length seq \<Longrightarrow>
     calculate_idle_times outside seq p m ! k = cit_memory outside seq p m (int k)"
  by (simp add: calculate_idle_times_def)

text \<open>Scenario 3 of the specification, whatever the memory around the vector holds.\<close>

lemma scenario_3_idle_times:
  "calculate_idle_times outside [1, 2] [[3, 2], [2, 4]] 2 = [3, 0]"
  by code_simp

text \<open>
  Claim C10. The vector that \<open>calculate_idle_times\<close> returns has the length \<open>n\<close> of the
  sequence: it is the cells at the offsets \<open>0 .. n - 1\<close>. The idle time of a job is
  stored at the offset job id minus one: when the loops have run the cell there holds the
  idle time of the job's position (the last position that names the job, should it occur
  twice), and every cell that no job id of the sequence names holds what it held after
  the allocation. The offsets stored at are all inside the vector exactly when every
  job id of the sequence lies in \<open>1 .. n\<close>; for a job id greater than \<open>n\<close> the offset is
  outside the vector, and the cell that then holds the job's idle time is not one of
  the vector's.
\<close>

theorem idle_store_bounds:
  "length (calculate_idle_times outside seq p m) = length seq \<and>
   (\<forall>k<length seq.
      calculate_idle_times outside seq p m ! k = cit_memory outside seq p m (int k)) \<and>
   (\<forall>i<length seq. (\<forall>i'. i < i' \<and> i' < length seq \<longrightarrow> seq ! i' \<noteq> seq ! i) \<longrightarrow>
      cit_memory outside seq p m (seq ! i - 1) = idle_sum seq p m (cct_table seq p m) i) \<and>
   (\<forall>k. (\<forall>job\<in>set seq. k \<noteq> job - 1) \<longrightarrow>
      cit_memory outside seq p m k = idle_alloc outside (length seq) k) \<and>
   ((\<forall>job\<in>set seq. vec_in_bounds (length seq) (job - 1))
      \<longleftrightarrow> (\<forall>job\<in>set seq. 1 \<le> job \<and> job \<le> int (length seq))) \<and>
   (\<forall>job\<in>set seq. int (length seq) < job \<longrightarrow>
      \<not> vec_in_bounds (length seq) (job - 1) \<and>
      (\<exists>i<length seq. seq ! i = job \<and>
         cit_memory outside seq p m (job - 1) = idle_sum seq p m (cct_table seq p m) i))"
proof (intro conjI)
  show "length (calculate_idle_times outside seq p m) = length seq"
    by (rule length_calculate_idle_times)
  show "\<forall>k<length seq.
      calculate_idle_times outside seq p m ! k = cit_memory outside seq p m (int k)"
    by (simp add: nth_calculate_idle_times)
  show "\<forall>i<length seq. (\<forall>i'. i < i' \<and> i' < length seq \<longrightarrow> seq ! i' \<noteq> seq ! i) \<longrightarrow>
      cit_memory outside seq p m (seq ! i - 1) = idle_sum seq p m (cct_table seq p m) i"
    by (intro allI impI) (rule cit_memory_last)
  show "\<forall>k. (\<forall>job\<in>set seq. k \<noteq> job - 1) \<longrightarrow>
      cit_memory outside seq p m k = idle_alloc outside (length seq) k"
    by (intro allI impI) (rule cit_memory_other)
  show "(\<forall>job\<in>set seq. vec_in_bounds (length seq) (job - 1))
      \<longleftrightarrow> (\<forall>job\<in>set seq. 1 \<le> job \<and> job \<le> int (length seq))"
    by (auto simp: vec_in_bounds_def)
  show "\<forall>job\<in>set seq. int (length seq) < job \<longrightarrow>
      \<not> vec_in_bounds (length seq) (job - 1) \<and>
      (\<exists>i<length seq. seq ! i = job \<and>
         cit_memory outside seq p m (job - 1) = idle_sum seq p m (cct_table seq p m) i)"
  proof (intro ballI impI conjI)
    fix job
    assume job: "job \<in> set seq" and big: "int (length seq) < job"
    from big show "\<not> vec_in_bounds (length seq) (job - 1)"
      by (simp add: vec_in_bounds_def)
    from last_occurrence [OF job] obtain i where i: "i < length seq" "seq ! i = job"
      "\<forall>i'. i < i' \<and> i' < length seq \<longrightarrow> seq ! i' \<noteq> seq ! i"
      by blast
    from cit_memory_last [OF i(1) i(3), of outside p m] i(2)
    have "cit_memory outside seq p m (job - 1) = idle_sum seq p m (cct_table seq p m) i"
      by simp
    with i show "\<exists>i<length seq. seq ! i = job \<and>
         cit_memory outside seq p m (job - 1) = idle_sum seq p m (cct_table seq p m) i"
      by blast
  qed
qed

text \<open>
  Job 3 first in a sequence of two jobs: its idle time 1 is stored at offset 2, behind the
  two cells of the vector, where the memory held 7, and the cell behind that one still
  holds 7; the vector keeps the idle time 2 of job 1 at offset 0 and the 0 of the
  allocation at offset 1.
\<close>

theorem idle_store_bounds_witness:
  "\<not> vec_in_bounds (length [3, 1 :: int]) (3 - 1) \<and>
   cit_memory (\<lambda>k. 7) [3, 1] [[3, 2], [2, 4], [1, 1]] 2 (3 - 1) = 1 \<and>
   cit_memory (\<lambda>k. 7) [3, 1] [[3, 2], [2, 4], [1, 1]] 2 3 = 7 \<and>
   calculate_idle_times (\<lambda>k. 7) [3, 1] [[3, 2], [2, 4], [1, 1]] 2 = [2, 0]"
proof -
  let ?p = "[[3, 2], [2, 4], [1, 1 :: int]]"
  note inst = idle_store_bounds [of "\<lambda>k. 7" "[3, 1]" ?p 2]
  have last: "\<forall>i'. 0 < i' \<and> i' < length [3, 1 :: int] \<longrightarrow> [3, 1 :: int] ! i' \<noteq> [3, 1] ! 0"
    by (auto simp: less_Suc_eq)
  have val: "idle_sum [3, 1] ?p 2 (cct_table [3, 1] ?p 2) 0 = 1" by code_simp
  have out: "\<not> vec_in_bounds (length [3, 1 :: int]) (3 - 1)"
    using inst by simp
  note stored = inst [THEN conjunct2, THEN conjunct2, THEN conjunct1, rule_format, of 0]
  from stored last val
  have "cit_memory (\<lambda>k. 7) [3, 1] ?p 2 ([3, 1] ! 0 - 1) = 1" by simp
  then have cell: "cit_memory (\<lambda>k. 7) [3, 1] ?p 2 (3 - 1) = 1" by simp
  note kept = inst [THEN conjunct2, THEN conjunct2, THEN conjunct2, THEN conjunct1,
      THEN spec, of 3]
  from kept
  have rest: "cit_memory (\<lambda>k. 7) [3, 1] ?p 2 3 = 7"
    by (simp add: idle_alloc_def vec_in_bounds_def)
  have vec: "calculate_idle_times (\<lambda>k. 7) [3, 1] ?p 2 = [2, 0]" by code_simp
  from out cell rest vec show ?thesis by (intro conjI)
qed

section \<open>Idle times are not negative\<close>

lemma idle_inv_step:
  assumes inv: "idle_inv B j acc" and d: "0 \<le> d" "d \<le> B"
    and j: "1 \<le> j" "j \<le> m" and small: "int m * B < 2147483648"
  shows "idle_inv B (Suc j) (add32 acc d)"
proof -
  have B: "0 \<le> B" using d by simp
  have a0: "0 \<le> acc" using inv by (simp add: idle_inv_def)
  have a1: "acc \<le> int (j - 1) * B" using inv by (simp add: idle_inv_def)
  have "acc + d \<le> int (j - 1) * B + B" using a1 d by simp
  also have "\<dots> = int j * B" using j by (simp add: algebra_simps of_nat_diff)
  finally have up: "acc + d \<le> int j * B" .
  have "int j * B \<le> int m * B" using j B by (intro mult_right_mono) simp_all
  then have "acc + d < 2147483648" using up small by simp
  then have ex: "add32 acc d = acc + d" using a0 d by (simp add: add32_exact)
  show ?thesis using a0 d up by (simp add: idle_inv_def ex)
qed

lemma idle_term_bounds:
  assumes nn: "\<forall>job\<in>set seq. nonneg_times m (job_time p job)"
    and small: "total_time p m seq < 2147483648"
    and i: "i < length seq" and j: "1 \<le> j" "j \<le> m"
  defines "e \<equiv> cct_table seq p m"
  defines "d \<equiv> idle_term seq p e i j"
  shows "0 \<le> d \<and> d \<le> total_time p m seq"
proof -
  let ?E = "E_row (+) p seq"
  let ?t = "job_time p (seq ! i)"
  obtain j0 where j0: "j = Suc j0" using j by (cases j) auto
  have c1: "get2 e (i + 1) j = ?E (Suc i) j"
    using i j by (simp add: e_def cct_table_cells E_row_wrap [OF nn small])
  have c0: "get2 e i j = ?E i j"
    using i j by (simp add: e_def cct_table_cells E_row_wrap [OF nn small])
  have t: "pt p (seq ! i - 1) (j - 1) = ?t j" by (simp add: job_time_def)
  define M where "M = max (?E (Suc i) j0) (?E i j)"
  have row: "?E (Suc i) j = M + ?t j"
    using i by (simp add: E_row_Suc j0 M_def)
  have g0: "good_row m (?E i)" and g1: "good_row m (?E (Suc i))"
    using nn by (rule E_row_good)+
  have "0 \<le> ?E i j" using g0 j by (intro good_row_nonneg [of m]) simp_all
  then have M0: "0 \<le> M" by (simp add: M_def)
  have tj: "0 \<le> ?t j" using nn i j by (simp add: nonneg_times_def)
  have "?E (Suc i) j \<le> ?E (Suc i) m" using g1 j by (intro good_row_mono [of m]) simp_all
  also have "\<dots> \<le> total_time p m seq" using nn by (rule E_row_bound)
  finally have top: "M + ?t j \<le> total_time p m seq" by (simp add: row)
  then have MB: "M \<le> total_time p m seq" using tj by simp
  have "sub32 (M + ?t j) (?t j) = M"
    using M0 MB small by (simp add: sub32_exact)
  then have s1: "sub32 (get2 e (i + 1) j) (pt p (seq ! i - 1) (j - 1)) = M"
    by (simp only: c1 t row)
  have "?E i j \<le> M" by (simp add: M_def)
  then have s2: "sub32 M (?E i j) = M - ?E i j"
    using M0 MB small \<open>0 \<le> ?E i j\<close> by (intro sub32_exact) simp_all
  have "d = M - ?E i j" unfolding d_def idle_term_def s1 c0 s2 by (rule refl)
  then show ?thesis using \<open>?E i j \<le> M\<close> \<open>0 \<le> ?E i j\<close> MB by simp
qed

lemma idle_sum_nonneg:
  assumes nn: "\<forall>job\<in>set seq. nonneg_times m (job_time p job)"
    and small: "int m * total_time p m seq < 2147483648"
    and i: "i < length seq"
  shows "0 \<le> idle_sum seq p m (cct_table seq p m) i"
proof -
  let ?B = "total_time p m seq"
  let ?e = "cct_table seq p m"
  let ?g = "\<lambda>j acc. add32 acc (idle_term seq p ?e i j)"
  have B0: "0 \<le> ?B" using nn by (rule total_time_nonneg)
  have "idle_inv ?B (Suc m) (fold ?g [1..<Suc m] 0)"
  proof (rule fold_upt_inv [where I = "idle_inv ?B" and g = ?g])
    show "1 \<le> Suc m" by simp
    show "idle_inv ?B 1 0" by (simp add: idle_inv_def)
    show "idle_inv ?B (Suc j) (add32 acc (idle_term seq p ?e i j))"
      if j: "1 \<le> j" "j < Suc m" and w: "idle_inv ?B j acc" for j acc
    proof -
      have m1: "1 \<le> int m" using j by simp
      have "1 * ?B \<le> int m * ?B" using m1 B0 by (intro mult_right_mono) simp_all
      then have sm: "?B < 2147483648" using small by simp
      have "j \<le> m" using j by simp
      from idle_term_bounds [OF nn sm i j(1) this] w j small show ?thesis
        by (intro idle_inv_step [where m = m]) simp_all
    qed
  qed
  then show ?thesis by (simp add: idle_inv_def idle_sum_def)
qed

lemma cit_memory_nonneg:
  assumes nn: "\<forall>job\<in>set seq. nonneg_times m (job_time p job)"
    and small: "int m * total_time p m seq < 2147483648"
  shows "vec_nonneg (length seq) (cit_memory outside seq p m)"
proof -
  let ?n = "length seq"
  let ?g = "\<lambda>i mem. mem (idle_index seq i := idle_sum seq p m (cct_table seq p m) i)"
  have "vec_nonneg ?n (fold ?g [0..<?n] (idle_alloc outside ?n))"
  proof (rule fold_upt_inv [where I = "\<lambda>i. vec_nonneg ?n" and g = ?g])
    show "0 \<le> ?n" by simp
    show "vec_nonneg ?n (idle_alloc outside ?n)"
      by (simp add: vec_nonneg_def idle_alloc_def)
    show "vec_nonneg ?n (mem (idle_index seq i := idle_sum seq p m (cct_table seq p m) i))"
      if "i < ?n" and "vec_nonneg ?n mem" for i mem
      using that idle_sum_nonneg [OF nn small that(1)] by (simp add: vec_nonneg_def)
  qed
  then show ?thesis by (simp only: cit_memory_fold)
qed

text \<open>
  Claim C9, as the code has it. For a rectangular non-negative matrix and a sequence of
  job ids that name a row and are at most the length \<open>n\<close> of the sequence, so that every
  store is inside the vector, and provided \<open>num_machines\<close> times the sum of the
  processing times of the sequence's jobs on the machines \<open>1 .. m\<close> is less than \<open>2^31\<close>,
  every entry of the vector returned by \<open>calculate_idle_times\<close> is at least 0.
\<close>

theorem idle_times_nonnegative:
  assumes "rectangular p cols" and "num_machines \<le> cols" and "nonnegative p"
    and "jobs_in_range p seq"
    and "\<forall>job\<in>set seq. job \<le> int (length seq)"
    and "int num_machines * total_time p num_machines seq < 2147483648"
  shows "\<forall>x\<in>set (calculate_idle_times outside seq p num_machines). 0 \<le> x"
proof -
  let ?m = num_machines
  have nn: "\<forall>job\<in>set seq. nonneg_times ?m (job_time p job)"
    using assms(1-4) by (rule valid_jobs_nonneg)
  have "vec_nonneg (length seq) (cit_memory outside seq p ?m)"
    using nn assms(6) by (rule cit_memory_nonneg)
  then show ?thesis
    by (auto simp: calculate_idle_times_def vec_nonneg_def vec_in_bounds_def)
qed

theorem idle_times_nonnegative_witness:
  "list_all (\<lambda>x. 0 \<le> x) (calculate_idle_times (\<lambda>k. 7) [1, 2] [[3, 2], [2, 4]] 2)"
proof -
  have 1: "rectangular [[3, 2], [2, 4]] 2" by code_simp
  have 2: "nonnegative [[3, 2], [2, 4]]" by code_simp
  have 3: "jobs_in_range [[3, 2], [2, 4]] [1, 2]" by code_simp
  have 4: "\<forall>job\<in>set [1, 2 :: int]. job \<le> int (length [1, 2 :: int])" by simp
  have 5: "int 2 * total_time [[3, 2], [2, 4]] 2 [1, 2] < 2147483648" by code_simp
  from idle_times_nonnegative [OF 1 order_refl 2 3 4 5] show ?thesis
    by (simp only: list_all_iff)
qed

text \<open>
  Without the bound the claim fails: the first job of a sequence waits on machine \<open>j\<close>
  for its own completion on the machines before it, so the job \<open>[2^30, 0, 0, 0]\<close> has idle
  time \<open>3 * 2^30\<close>, which the 32-bit vector holds as a negative number.
\<close>

theorem idle_times_nonnegative_counterexample:
  "calculate_idle_times (\<lambda>k. 0) [1] [[1073741824, 0, 0, 0]] 4 = [- 1073741824]"
  by code_simp

section \<open>The main loop of taillard\_acceleration\<close>

lemma upd2_apply: "upd2 a i j v i' j' = (if i' = i \<and> j' = j then v else a i' j')"
  by (simp add: upd2_def)

lemma bwd_row_beyond: "m < j \<Longrightarrow> bwd_row add m t q j = 0"
  by (simp add: bwd_row_def)

lemma bwd_row_rec:
  assumes "1 \<le> j" "j \<le> m"
  shows "bwd_row add m t q j = add (max (bwd_row add m t q (Suc j)) (q j)) (t j)"
proof -
  have 1: "m + 1 - j = Suc (m - j)" using assms by simp
  have 2: "m + 1 - Suc j = m - j" by simp
  have 3: "m - (m - j) = j" using assms by simp
  show ?thesis by (simp only: bwd_row_def 1 2 bwd_aux.simps 3)
qed

lemma Q_row_last: "Q_row add m p seq (Suc (length seq)) = (\<lambda>j. 0)"
  by (simp add: Q_row_def)

lemma Q_row_rec:
  assumes "1 \<le> i" "i \<le> length seq"
  shows "Q_row add m p seq i = bwd_row add m (job_time p (seq ! (i - 1))) (Q_row add m p seq (i + 1))"
proof -
  have "drop (i - 1) seq = seq ! (i - 1) # drop i seq"
    using assms Cons_nth_drop_Suc [of "i - 1" seq] by simp
  then show ?thesis by (simp add: Q_row_def)
qed

lemma Q_row_beyond:
  assumes "1 \<le> i" "i \<le> length seq" "m < j"
  shows "Q_row add m p seq i j = 0"
  by (subst Q_row_rec [OF assms(1,2)]) (simp add: bwd_row_beyond assms(3))

lemma e_tab_ta_cell:
  "e_tab (ta_cell seq p ins m i j s) =
     (let e1 = (if i = 1 then upd2 (e_tab s) 0 j 0 else e_tab s)
      in if i < length seq + 1
         then upd2 e1 i j (add32 (max (e1 i (j - 1)) (e1 (i - 1) j)) (job_time p (seq ! (i - 1)) j))
         else e1)"
  by (simp add: ta_cell_def ta_eq_cell_def ta_f_cell_def Let_def max_def job_time_def)

lemma iq_ta_cell: "iq (ta_cell seq p ins m i j s) = iq s"
  by (simp add: ta_cell_def ta_eq_cell_def ta_f_cell_def Let_def)

lemma jq_ta_cell:
  "jq (ta_cell seq p ins m i j s) = (if i < length seq + 1 then jq s - 1 else jq s)"
  by (simp add: ta_cell_def ta_eq_cell_def ta_f_cell_def Let_def)

lemma q_tab_ta_cell:
  "q_tab (ta_cell seq p ins m i j s) =
     (let q1 = (if i = 1 then upd2 (q_tab s) (length seq + 1) (m + 1 - j) 0 else q_tab s)
      in if i < length seq + 1
         then upd2 q1 (iq s) (jq s - 1)
                (add32 (max (q1 (iq s) (jq s - 1 + 1)) (q1 (iq s + 1) (jq s - 1)))
                   (job_time p (seq ! (iq s - 1)) (jq s - 1)))
         else q1)"
  by (simp add: ta_cell_def ta_eq_cell_def ta_f_cell_def Let_def max_def job_time_def)

lemma f_tab_ta_cell:
  "f_tab (ta_cell seq p ins m i j s) =
     upd2 (f_tab s) i j
       (add32 (max (f_tab s i (j - 1)) (e_tab (ta_cell seq p ins m i j s) (i - 1) j))
          (job_time p ins j))"
  by (simp add: ta_cell_def ta_eq_cell_def ta_f_cell_def Let_def max_def job_time_def)

lemma e_inv_cell:
  assumes inv: "e_inv seq p m i j e" and i: "1 \<le> i" "i \<le> length seq + 1"
    and j: "1 \<le> j" "j \<le> m"
  defines "e1 \<equiv> (if i = 1 then upd2 e 0 j 0 else e)"
  defines "e' \<equiv> (if i < length seq + 1
         then upd2 e1 i j (add32 (max (e1 i (j - 1)) (e1 (i - 1) j)) (job_time p (seq ! (i - 1)) j))
         else e1)"
  shows "e_inv seq p m i (Suc j) e' \<and> e' (i - 1) j = E_row add32 p seq (i - 1) j"
proof -
  let ?n = "length seq"
  let ?E = "E_row add32 p seq"
  have inv1: "e i' j' = ?E i' j'" if "1 \<le> i'" "i' < i" "i' \<le> ?n" "j' \<le> m" for i' j'
    using inv that by (simp add: e_inv_def)
  have inv2: "e 0 j' = 0" if "1 \<le> j'" "j' \<le> m" "i = 1 \<longrightarrow> j' < j" for j'
    using inv that by (simp add: e_inv_def)
  have inv3: "e i j' = ?E i j'" if "i \<le> ?n" "j' < j" for j'
    using inv that by (simp add: e_inv_def)
  have old: "e1 i' j' = e i' j'" if "i' \<noteq> 0 \<or> j' \<noteq> j" for i' j'
    using that by (auto simp: e1_def upd2_apply)
  have row0: "e1 0 j = 0"
  proof (cases "i = 1")
    case True
    then show ?thesis by (simp add: e1_def upd2_apply)
  next
    case False
    then show ?thesis using inv2 [of j] j by (simp add: e1_def)
  qed
  have prev: "e1 (i - 1) j = ?E (i - 1) j"
  proof (cases "i = 1")
    case True
    then show ?thesis using row0 by (simp add: E_row_0)
  next
    case False
    then have "e1 (i - 1) j = e (i - 1) j" using i old by simp
    also have "\<dots> = ?E (i - 1) j" using False i j by (intro inv1) simp_all
    finally show ?thesis .
  qed
  obtain i0 where i0: "i = Suc i0" using i by (cases i) auto
  obtain j0 where j0: "j = Suc j0" using j by (cases j) auto
  have new: "e' i' j' = (if i \<le> ?n \<and> i' = i \<and> j' = j then ?E i j else e1 i' j')" for i' j'
  proof (cases "i \<le> ?n")
    case True
    have "e1 i j0 = ?E i j0" using inv3 [of j0] old [of i j0] True i j0 by simp
    then have "add32 (max (e1 i (j - 1)) (e1 (i - 1) j)) (job_time p (seq ! (i - 1)) j) = ?E i j"
      using prev True by (simp add: i0 j0 E_row_Suc)
    then show ?thesis using True by (simp add: e'_def upd2_apply)
  next
    case False
    then show ?thesis by (simp add: e'_def)
  qed
  have "e_inv seq p m i (Suc j) e'"
    unfolding e_inv_def
  proof (intro conjI allI impI)
    fix i' j' assume "1 \<le> i' \<and> i' < i \<and> i' \<le> ?n \<and> j' \<le> m"
    then show "e' i' j' = ?E i' j'" using inv1 [of i' j'] old [of i' j'] by (simp add: new)
  next
    fix j' assume a: "1 \<le> j' \<and> j' \<le> m \<and> (i = 1 \<longrightarrow> j' < Suc j)"
    show "e' 0 j' = 0"
    proof (cases "j' = j")
      case True
      then show ?thesis using row0 i by (simp add: new)
    next
      case False
      then have "e1 0 j' = e 0 j'" using old by simp
      also have "\<dots> = 0" using a False by (intro inv2) auto
      finally show ?thesis using i by (simp add: new)
    qed
  next
    fix j' assume n: "i \<le> ?n" and "j' < Suc j"
    then show "e' i j' = ?E i j'"
      using inv3 [of j'] old [of i j'] i by (cases "j' = j") (simp_all add: new)
  qed
  moreover have "e' (i - 1) j = ?E (i - 1) j"
    using prev i by (simp add: new)
  ultimately show ?thesis ..
qed

lemma f_inv_cell:
  assumes inv: "f_inv seq p ins m i j f" and i: "1 \<le> i" and j: "1 \<le> j" "j \<le> m"
    and prev: "x = E_row add32 p seq (i - 1) j"
  shows "f_inv seq p ins m i (Suc j) (upd2 f i j (add32 (max (f i (j - 1)) x) (job_time p ins j)))"
proof -
  let ?F = "F_row add32 p seq ins"
  obtain j0 where j0: "j = Suc j0" using j by (cases j) auto
  have "f i j0 = ?F i j0" using inv j0 by (simp add: f_inv_def)
  then have v: "add32 (max (f i (j - 1)) x) (job_time p ins j) = ?F i j"
    by (simp add: prev j0 F_row_def)
  show ?thesis
    unfolding f_inv_def v
  proof (intro conjI allI impI)
    fix i' j' assume "1 \<le> i' \<and> i' < i \<and> j' \<le> m"
    then show "upd2 f i j (?F i j) i' j' = ?F i' j'"
      using inv by (simp add: upd2_apply f_inv_def)
  next
    fix j' assume "j' < Suc j"
    then show "upd2 f i j (?F i j) i j' = ?F i j'"
      using inv by (cases "j' = j") (simp_all add: upd2_apply f_inv_def)
  qed
qed

lemma q_inv_cell:
  assumes inv: "q_inv seq p m i j q" and i: "1 \<le> i" "i \<le> length seq + 1"
    and j: "1 \<le> j" "j \<le> m"
  defines "r \<equiv> length seq + 1 - i" and "c \<equiv> m + 1 - j"
  defines "q1 \<equiv> (if i = 1 then upd2 q (length seq + 1) c 0 else q)"
  defines "q' \<equiv> (if i < length seq + 1
         then upd2 q1 r c (add32 (max (q1 r (c + 1)) (q1 (r + 1) c)) (job_time p (seq ! (r - 1)) c))
         else q1)"
  shows "q_inv seq p m i (Suc j) q'"
proof -
  let ?n = "length seq"
  let ?Q = "Q_row add32 m p seq"
  have c: "1 \<le> c" "c \<le> m" "m + 1 - Suc j < c" "m + 1 - j = c" "m + 1 - Suc j = c - 1"
    using j by (simp_all add: c_def)
  have inv2: "q i' j' = ?Q i' j'"
    if "1 \<le> i'" "i' \<le> ?n" "?n + 1 - i' < i" "1 \<le> j'" "j' \<le> m" for i' j'
    using inv that by (simp add: q_inv_def)
  have inv3: "q (?n + 1) j' = 0" if "1 \<le> j'" "j' \<le> m" "i = 1 \<longrightarrow> c < j'" for j'
    using inv that by (simp add: q_inv_def c_def)
  have inv4: "q r j' = ?Q r j'" if "i \<le> ?n" "c < j'" "j' \<le> m + 1" for j'
    using inv that by (simp add: q_inv_def c_def r_def)
  have old: "q1 i' j' = q i' j'" if "i' \<noteq> ?n + 1 \<or> j' \<noteq> c" for i' j'
    using that by (auto simp: q1_def upd2_apply)
  have last: "q1 (?n + 1) c = 0"
  proof (cases "i = 1")
    case True
    then show ?thesis by (simp add: q1_def upd2_apply)
  next
    case False
    then show ?thesis using inv3 [of c] c by (simp add: q1_def)
  qed
  have new: "q' i' j' = (if i \<le> ?n \<and> i' = r \<and> j' = c then ?Q r c else q1 i' j')" for i' j'
  proof (cases "i \<le> ?n")
    case True
    then have r: "1 \<le> r" "r \<le> ?n" using i by (simp_all add: r_def)
    have a: "q1 r (c + 1) = ?Q r (Suc c)"
      using inv4 [of "c + 1"] old [of r "c + 1"] True r c by simp
    have b: "q1 (r + 1) c = ?Q (r + 1) c"
    proof (cases "r = ?n")
      case True
      then show ?thesis using last by (simp add: Q_row_last)
    next
      case False
      then have "q1 (r + 1) c = q (r + 1) c" using r old by simp
      also have "\<dots> = ?Q (r + 1) c"
        using False r c i by (intro inv2) (simp_all add: r_def)
      finally show ?thesis .
    qed
    have "?Q r c = add32 (max (?Q r (Suc c)) (?Q (r + 1) c)) (job_time p (seq ! (r - 1)) c)"
      using r c by (simp add: Q_row_rec [of r seq] bwd_row_rec)
    then show ?thesis using True a b by (simp add: q'_def upd2_apply)
  next
    case False
    then show ?thesis by (simp add: q'_def)
  qed
  show ?thesis
    unfolding q_inv_def
  proof (intro conjI allI impI)
    fix i' j'
    assume a: "1 \<le> i' \<and> i' \<le> ?n \<and> ?n + 1 - i' < i \<and> 1 \<le> j' \<and> j' \<le> m"
    then have "i' \<noteq> r" unfolding r_def by arith
    moreover have "q1 i' j' = q i' j'" using a old by simp
    ultimately show "q' i' j' = ?Q i' j'" using a inv2 [of i' j'] by (simp add: new)
  next
    fix j' assume a: "1 \<le> j' \<and> j' \<le> m \<and> (i = 1 \<longrightarrow> m + 1 - Suc j < j')"
    have nr: "i \<le> ?n \<longrightarrow> ?n + 1 \<noteq> r" using i unfolding r_def by arith
    show "q' (?n + 1) j' = 0"
    proof (cases "j' = c")
      case True
      have "q' (?n + 1) j' = q1 (?n + 1) j'" unfolding new using nr by auto
      then show ?thesis using last True by simp
    next
      case False
      have cj: "i = 1 \<longrightarrow> c < j'" using a False j unfolding c_def by arith
      have "q' (?n + 1) j' = q1 (?n + 1) j'" unfolding new using nr by auto
      also have "\<dots> = q (?n + 1) j'" using old False by simp
      also have "\<dots> = 0" using a cj by (intro inv3) simp_all
      finally show ?thesis .
    qed
  next
    fix j' assume n: "i \<le> ?n" and a: "m + 1 - Suc j < j' \<and> j' \<le> m + 1"
    have r: "r \<noteq> ?n + 1" using i n unfolding r_def by arith
    show "q' (?n + 1 - i) j' = ?Q (?n + 1 - i) j'"
    proof (cases "j' = c")
      case True
      then show ?thesis using n by (simp add: new r_def)
    next
      case False
      then have "c < j'" using a j unfolding c_def by arith
      then have "q r j' = ?Q r j'" using n a by (intro inv4) simp_all
      moreover have "q1 r j' = q r j'" using old r by simp
      ultimately show ?thesis using False by (simp add: new r_def)
    qed
  qed
qed

lemma ta_cell_inv:
  assumes inv: "ta_inv seq p ins m i j s" and i: "1 \<le> i" "i \<le> length seq + 1"
    and j: "1 \<le> j" "j \<le> m"
  shows "ta_inv seq p ins m i (Suc j) (ta_cell seq p ins m i j s)"
proof -
  let ?n = "length seq"
  let ?s = "ta_cell seq p ins m i j s"
  have e0: "e_inv seq p m i j (e_tab s)" and q0: "q_inv seq p m i j (q_tab s)"
    and f0: "f_inv seq p ins m i j (f_tab s)"
    and iq0: "iq s = ?n + 1 - min i ?n"
    and jq0: "jq s = (if i \<le> ?n then m + 2 - j else m + 1)"
    using inv by (simp_all add: ta_inv_def)
  have "e_inv seq p m i (Suc j) (e_tab ?s) \<and>
        e_tab ?s (i - 1) j = E_row add32 p seq (i - 1) j"
    unfolding e_tab_ta_cell Let_def by (rule e_inv_cell [OF e0 i j])
  then have e: "e_inv seq p m i (Suc j) (e_tab ?s)"
    and prev: "e_tab ?s (i - 1) j = E_row add32 p seq (i - 1) j"
    by blast+
  have idx: "i < ?n + 1 \<Longrightarrow> iq s = ?n + 1 - i \<and> jq s - 1 = m + 1 - j"
    using iq0 jq0 j by (simp add: min_def)
  have q: "q_inv seq p m i (Suc j) (q_tab ?s)"
  proof (cases "i < ?n + 1")
    case True
    with idx have eq: "iq s = ?n + 1 - i" "jq s - 1 = m + 1 - j" by simp_all
    show ?thesis
      using q_inv_cell [OF q0 i j] True
      by (simp only: q_tab_ta_cell Let_def eq if_True)
  next
    case False
    then show ?thesis
      using q_inv_cell [OF q0 i j] by (simp only: q_tab_ta_cell Let_def if_False)
  qed
  have f: "f_inv seq p ins m i (Suc j) (f_tab ?s)"
    unfolding f_tab_ta_cell using f0 i(1) j prev by (rule f_inv_cell)
  have "iq ?s = ?n + 1 - min i ?n" by (simp add: iq_ta_cell iq0)
  moreover have "jq ?s = (if i \<le> ?n then m + 2 - Suc j else m + 1)"
    using jq0 j by (simp add: jq_ta_cell)
  ultimately show ?thesis using e q f by (simp add: ta_inv_def)
qed

lemma ta_row_start:
  assumes out: "ta_out seq p ins m i s" and i: "1 \<le> i" "i \<le> length seq + 1"
  defines "s1 \<equiv> (if i < length seq + 1
         then (let s' = s\<lparr>e_tab := upd2 (e_tab s) i 0 0, iq := iq s - 1\<rparr>
               in s'\<lparr>q_tab := upd2 (q_tab s') (iq s') (m + 1) 0\<rparr>)
         else s)"
  shows "ta_inv seq p ins m i 1 (s1\<lparr>f_tab := upd2 (f_tab s1) i 0 0, jq := m + 1\<rparr>)"
proof -
  let ?n = "length seq"
  let ?r = "?n + 1 - i"
  have e0: "e_inv seq p m i 0 (e_tab s)" and q0: "q_inv seq p m i 0 (q_tab s)"
    and f0: "f_inv seq p ins m i 0 (f_tab s)"
    and iq0: "iq s = ?n + 1 - min (i - 1) ?n"
    using out by (simp_all add: ta_out_def)
  have iq1: "i \<le> ?n \<Longrightarrow> iq s - 1 = ?r" using iq0 i by (simp add: min_def)
  have e1: "e_tab s1 = (if i \<le> ?n then upd2 (e_tab s) i 0 0 else e_tab s)"
    by (simp add: s1_def Let_def)
  have q1: "q_tab s1 = (if i \<le> ?n then upd2 (q_tab s) ?r (m + 1) 0 else q_tab s)"
    using iq1 by (simp add: s1_def Let_def)
  have f1: "f_tab s1 = f_tab s" by (simp add: s1_def Let_def)
  have iqs: "iq s1 = ?n + 1 - min i ?n"
    using iq0 i by (auto simp: s1_def Let_def min_def)
  have e: "e_inv seq p m i 1 (e_tab s1)"
    unfolding e_inv_def e1
  proof (intro conjI allI impI)
    fix i' j' assume "1 \<le> i' \<and> i' < i \<and> i' \<le> ?n \<and> j' \<le> m"
    then show "(if i \<le> ?n then upd2 (e_tab s) i 0 0 else e_tab s) i' j' = E_row add32 p seq i' j'"
      using e0 by (simp add: upd2_apply e_inv_def)
  next
    fix j' assume a: "1 \<le> j' \<and> j' \<le> m \<and> (i = 1 \<longrightarrow> j' < 1)"
    then have "i \<noteq> 1" by auto
    then have "e_tab s 0 j' = 0" using e0 a by (simp add: e_inv_def)
    then show "(if i \<le> ?n then upd2 (e_tab s) i 0 0 else e_tab s) 0 j' = 0"
      using a by (simp add: upd2_apply)
  next
    fix j' :: nat assume "i \<le> ?n" "j' < 1"
    then show "(if i \<le> ?n then upd2 (e_tab s) i 0 0 else e_tab s) i j' = E_row add32 p seq i j'"
      by (simp add: upd2_apply E_row_col0)
  qed
  have q: "q_inv seq p m i 1 (q_tab s1)"
    unfolding q_inv_def q1
  proof (intro conjI allI impI)
    fix i' j' assume "1 \<le> i' \<and> i' \<le> ?n \<and> ?n + 1 - i' < i \<and> 1 \<le> j' \<and> j' \<le> m"
    then show "(if i \<le> ?n then upd2 (q_tab s) ?r (m + 1) 0 else q_tab s) i' j'
                 = Q_row add32 m p seq i' j'"
      using q0 by (simp add: upd2_apply q_inv_def)
  next
    fix j' assume a: "1 \<le> j' \<and> j' \<le> m \<and> (i = 1 \<longrightarrow> m + 1 - 1 < j')"
    then have "i \<noteq> 1" by auto
    then have "q_tab s (?n + 1) j' = 0" using q0 a by (simp add: q_inv_def)
    then show "(if i \<le> ?n then upd2 (q_tab s) ?r (m + 1) 0 else q_tab s) (?n + 1) j' = 0"
      using a by (simp add: upd2_apply)
  next
    fix j' assume n: "i \<le> ?n" and a: "m + 1 - 1 < j' \<and> j' \<le> m + 1"
    then have j': "j' = m + 1" by simp
    have r: "1 \<le> ?r" "?r \<le> ?n" using i n by simp_all
    have "Q_row add32 m p seq ?r (m + 1) = 0"
      using r by (intro Q_row_beyond) simp_all
    then show "(if i \<le> ?n then upd2 (q_tab s) ?r (m + 1) 0 else q_tab s) ?r j'
                 = Q_row add32 m p seq ?r j'"
      using n by (simp add: upd2_apply j')
  qed
  have f: "f_inv seq p ins m i 1 (upd2 (f_tab s) i 0 0)"
    using f0 by (auto simp: f_inv_def upd2_apply F_row_def)
  show ?thesis
    using e q f iqs by (simp add: ta_inv_def f1)
qed

lemma ta_row_end:
  assumes inv: "ta_inv seq p ins m i (Suc m) s" and i: "1 \<le> i"
  shows "ta_out seq p ins m (Suc i) s"
proof -
  let ?n = "length seq"
  have e0: "e_inv seq p m i (Suc m) (e_tab s)" and q0: "q_inv seq p m i (Suc m) (q_tab s)"
    and f0: "f_inv seq p ins m i (Suc m) (f_tab s)"
    and iq0: "iq s = ?n + 1 - min i ?n"
    using inv by (simp_all add: ta_inv_def)
  have e: "e_inv seq p m (Suc i) 0 (e_tab s)"
    unfolding e_inv_def
  proof (intro conjI allI impI)
    fix i' j' assume a: "1 \<le> i' \<and> i' < Suc i \<and> i' \<le> ?n \<and> j' \<le> m"
    show "e_tab s i' j' = E_row add32 p seq i' j'"
    proof (cases "i' = i")
      case True
      then show ?thesis using e0 a by (simp add: e_inv_def)
    next
      case False
      then have "i' < i" using a by simp
      then show ?thesis using e0 a by (simp add: e_inv_def)
    qed
  next
    fix j' assume "1 \<le> j' \<and> j' \<le> m \<and> (Suc i = 1 \<longrightarrow> j' < 0)"
    then show "e_tab s 0 j' = 0" using e0 by (simp add: e_inv_def)
  next
    fix j' :: nat assume "j' < 0"
    then show "e_tab s (Suc i) j' = E_row add32 p seq (Suc i) j'" by simp
  qed
  have q: "q_inv seq p m (Suc i) 0 (q_tab s)"
    unfolding q_inv_def
  proof (intro conjI allI impI)
    fix i' j'
    assume a: "1 \<le> i' \<and> i' \<le> ?n \<and> ?n + 1 - i' < Suc i \<and> 1 \<le> j' \<and> j' \<le> m"
    show "q_tab s i' j' = Q_row add32 m p seq i' j'"
    proof (cases "?n + 1 - i' = i")
      case True
      then have "i \<le> ?n" "i' = ?n + 1 - i" using a by auto
      then show ?thesis using q0 a by (simp add: q_inv_def)
    next
      case False
      then have "?n + 1 - i' < i" using a by simp
      then show ?thesis using q0 a by (simp add: q_inv_def)
    qed
  next
    fix j' assume "1 \<le> j' \<and> j' \<le> m \<and> (Suc i = 1 \<longrightarrow> m + 1 - 0 < j')"
    then show "q_tab s (?n + 1) j' = 0" using q0 by (simp add: q_inv_def)
  next
    fix j' assume "m + 1 - 0 < j' \<and> j' \<le> m + 1"
    then show "q_tab s (?n + 1 - Suc i) j' = Q_row add32 m p seq (?n + 1 - Suc i) j'" by simp
  qed
  have f: "f_inv seq p ins m (Suc i) 0 (f_tab s)"
    unfolding f_inv_def
  proof (intro conjI allI impI)
    fix i' j' assume a: "1 \<le> i' \<and> i' < Suc i \<and> j' \<le> m"
    show "f_tab s i' j' = F_row add32 p seq ins i' j'"
    proof (cases "i' = i")
      case True
      then show ?thesis using f0 a by (simp add: f_inv_def)
    next
      case False
      then have "i' < i" using a by simp
      then show ?thesis using f0 a by (simp add: f_inv_def)
    qed
  next
    fix j' :: nat assume "j' < 0"
    then show "f_tab s (Suc i) j' = F_row add32 p seq ins (Suc i) j'" by simp
  qed
  show ?thesis using e q f iq0 by (simp add: ta_out_def)
qed

lemma ta_row_out:
  assumes out: "ta_out seq p ins m i s" and i: "1 \<le> i" "i \<le> length seq + 1"
  shows "ta_out seq p ins m (Suc i) (ta_row seq p ins m i s)"
proof -
  define s1 where "s1 = (if i < length seq + 1
         then (let s' = s\<lparr>e_tab := upd2 (e_tab s) i 0 0, iq := iq s - 1\<rparr>
               in s'\<lparr>q_tab := upd2 (q_tab s') (iq s') (m + 1) 0\<rparr>)
         else s)"
  define s2 where "s2 = s1\<lparr>f_tab := upd2 (f_tab s1) i 0 0, jq := m + 1\<rparr>"
  have start: "ta_inv seq p ins m i 1 s2"
    unfolding s2_def s1_def using out i by (rule ta_row_start)
  have "ta_inv seq p ins m i (Suc m) (fold (ta_cell seq p ins m i) [1..<Suc m] s2)"
  proof (rule fold_upt_inv [where I = "ta_inv seq p ins m i" and g = "ta_cell seq p ins m i"])
    show "1 \<le> Suc m" by simp
    show "ta_inv seq p ins m i 1 s2" by (rule start)
    show "ta_inv seq p ins m i (Suc k) (ta_cell seq p ins m i k t)"
      if "1 \<le> k" "k < Suc m" "ta_inv seq p ins m i k t" for k t
      using that i by (intro ta_cell_inv) simp_all
  qed
  then have "ta_out seq p ins m (Suc i) (fold (ta_cell seq p ins m i) [1..<Suc m] s2)"
    using i(1) by (rule ta_row_end)
  moreover have "ta_row seq p ins m i s = fold (ta_cell seq p ins m i) [1..<Suc m] s2"
    by (simp only: ta_row_def s2_def s1_def Let_def)
  ultimately show ?thesis by simp
qed

lemma ta_main_out: "ta_out seq p ins m (length seq + 2) (ta_main st seq p ins m)"
  unfolding ta_main_def
proof (rule fold_upt_inv [where I = "ta_out seq p ins m" and g = "ta_row seq p ins m"])
  show "1 \<le> length seq + 2" by simp
  show "ta_out seq p ins m 1
     \<lparr>e_tab = e_init st, q_tab = q_init st, f_tab = f_init st, iq = length seq + 1, jq = 0\<rparr>"
    by (simp add: ta_out_def e_inv_def q_inv_def f_inv_def)
  show "ta_out seq p ins m (Suc k) (ta_row seq p ins m k t)"
    if "1 \<le> k" "k < length seq + 2" "ta_out seq p ins m k t" for k t
    using that by (intro ta_row_out) simp_all
qed

lemma ta_main_tables:
  shows "1 \<le> i \<Longrightarrow> i \<le> length seq + 1 \<Longrightarrow> 1 \<le> j \<Longrightarrow> j \<le> m \<Longrightarrow>
         f_tab (ta_main st seq p ins m) i j = F_row add32 p seq ins i j \<and>
         q_tab (ta_main st seq p ins m) i j = Q_row add32 m p seq i j"
proof -
  assume a: "1 \<le> i" "i \<le> length seq + 1" "1 \<le> j" "j \<le> m"
  let ?s = "ta_main st seq p ins m"
  have out: "ta_out seq p ins m (length seq + 2) ?s" by (rule ta_main_out)
  then have "f_inv seq p ins m (length seq + 2) 0 (f_tab ?s)" by (simp add: ta_out_def)
  then have f: "f_tab ?s i j = F_row add32 p seq ins i j"
    using a by (simp add: f_inv_def)
  have qi: "q_inv seq p m (length seq + 2) 0 (q_tab ?s)" using out by (simp add: ta_out_def)
  have "q_tab ?s i j = Q_row add32 m p seq i j"
  proof (cases "i = length seq + 1")
    case True
    then show ?thesis using qi a by (simp add: q_inv_def Q_row_last)
  next
    case False
    then show ?thesis using qi a by (simp add: q_inv_def)
  qed
  with f show ?thesis ..
qed

section \<open>The selection loop\<close>

lemma fold_ms_cell:
  "fold (ms_cell s i) js ms =
     ms(i := fold (\<lambda>j acc. max acc (add32 (f_tab s i j) (q_tab s i j))) js (ms i))"
proof (induction js arbitrary: ms)
  case Nil
  show ?case by simp
next
  case (Cons j js)
  let ?g = "\<lambda>j acc. max acc (add32 (f_tab s i j) (q_tab s i j))"
  have step: "ms_cell s i j ms = ms(i := ?g j (ms i))"
    by (auto simp: ms_cell_def Let_def max_def)
  have "fold (ms_cell s i) (j # js) ms = fold (ms_cell s i) js (ms(i := ?g j (ms i)))"
    by (simp add: step)
  also have "\<dots> = (ms(i := ?g j (ms i)))(i := fold ?g js ((ms(i := ?g j (ms i))) i))"
    by (rule Cons)
  also have "\<dots> = ms(i := fold ?g (j # js) (ms i))" by simp
  finally show ?case .
qed

lemma fold_max_cong:
  "(\<And>j. j \<in> set js \<Longrightarrow> g j = g' j) \<Longrightarrow>
   fold (\<lambda>j acc. max acc (g j :: int)) js a = fold (\<lambda>j acc. max acc (g' j)) js a"
  by (induction js arbitrary: a) simp_all

lemma ms_row_value:
  fixes st seq p ins m
  defines "s \<equiv> ta_main st seq p ins m"
  assumes "1 \<le> i" "i \<le> length seq + 1"
  shows "fold (ms_cell s i) [1..<Suc m] (ms(i := 0)) = ms(i := MS_val add32 m p seq ins i)"
proof -
  have "fold (\<lambda>j acc. max acc (add32 (f_tab s i j) (q_tab s i j))) [1..<Suc m] 0
      = fold (\<lambda>j acc. max acc (add32 (F_row add32 p seq ins i j) (Q_row add32 m p seq i j)))
          [1..<Suc m] 0"
  proof (rule fold_max_cong)
    fix j assume "j \<in> set [1..<Suc m]"
    then have "1 \<le> j" "j \<le> m" by (simp_all del: upt_Suc)
    from ta_main_tables [OF assms(2,3) this, of st p ins]
    show "add32 (f_tab s i j) (q_tab s i j)
            = add32 (F_row add32 p seq ins i j) (Q_row add32 m p seq i j)"
      by (simp add: s_def)
  qed
  then show ?thesis
    by (simp add: fold_ms_cell MS_val_def ms_val_def del: upt_Suc)
qed

lemma ms_row_pick:
  assumes "1 \<le> i" "i \<le> length seq + 1"
  shows "ms_row (ta_main st seq p ins m) m i (ms, b) =
           (ms(i := MS_val add32 m p seq ins i), pick (MS_val add32 m p seq ins) i b)"
proof (cases b)
  case (Pair bm bp)
  show ?thesis
    unfolding Pair ms_row_def Let_def prod.case ms_row_value [OF assms] pick_def
    by simp
qed

lemma ta_select_prefix:
  "k \<le> length seq + 1 \<Longrightarrow>
   snd (fold (ms_row (ta_main st seq p ins m) m) [1..<Suc k] (ms0, 0, 0))
     = best_of (MS_val add32 m p seq ins) k"
proof (induction k)
  case 0
  show ?case by (simp add: best_of_def)
next
  case (Suc k)
  let ?s = "ta_main st seq p ins m"
  define t where "t = fold (ms_row ?s m) [1..<Suc k] (ms0, 0, 0)"
  have IH: "snd t = best_of (MS_val add32 m p seq ins) k"
    unfolding t_def using Suc by simp
  have "fold (ms_row ?s m) [1..<Suc (Suc k)] (ms0, 0, 0) = ms_row ?s m (Suc k) (fst t, snd t)"
    by (simp add: t_def)
  also have "snd \<dots> = pick (MS_val add32 m p seq ins) (Suc k) (snd t)"
    using Suc.prems by (subst ms_row_pick) simp_all
  finally show ?case
    by (simp add: IH best_of_def)
qed

lemma taillard_acceleration_plain:
  assumes "use_tie_breaking \<le> 0"
  shows "taillard_acceleration st seq p ins m use_tie_breaking =
           (snd (best_of (MS_val add32 m p seq ins) (length seq + 1)),
            fst (best_of (MS_val add32 m p seq ins) (length seq + 1)))"
proof -
  let ?s = "ta_main st seq p ins m"
  have "snd (ta_select st ?s (length seq) m) = best_of (MS_val add32 m p seq ins) (length seq + 1)"
    using ta_select_prefix [of "length seq + 1" seq st p ins m "ms_init st"]
    by (simp add: ta_select_def)
  then show ?thesis
    using assms by (simp add: taillard_acceleration_def Let_def split_beta)
qed

section \<open>Determinism\<close>

text \<open>
  Without tie breaking every cell that is read has been written before, so the result does
  not depend on what the stack held.
\<close>

lemma taillard_acceleration_deterministic:
  "use_tie_breaking \<le> 0 \<Longrightarrow>
   taillard_acceleration st seq p ins m use_tie_breaking =
   taillard_acceleration st' seq p ins m use_tie_breaking"
  by (simp add: taillard_acceleration_plain)

text \<open>
  Claim C3 (determinism, also with \<open>use_tie_breaking = 1\<close>), evaluated on the code. On
  the input of Scenario 2 all three positions tie, and \<open>tie_breaking\<close> reads
  \<^verbatim>\<open>e[3][2]\<close>, a cell of row \<open>sequence_length + 1\<close> that no statement writes: two
  calls with the same arguments return position 1 when the stack held 0 and position 3
  when it held 11.
\<close>

theorem tie_breaking_reads_uninitialised_cell:
  "taillard_acceleration (uniform_scratch 0)
      [1, 2] [[3, 2], [2, 4], [1, 1]] 3 2 1 = (1, 10) \<and>
   taillard_acceleration (uniform_scratch 11)
      [1, 2] [[3, 2], [2, 4], [1, 1]] 3 2 1 = (3, 10)"
  by code_simp

section \<open>Forward and tail tables give the makespan of every insertion\<close>

lemma ms_val_Suc:
  "ms_val add (Suc m) f q = max (ms_val add m f q) (add (f (Suc m)) (q (Suc m)))"
  by (simp add: ms_val_def)

lemma ms_val_nonneg: "0 \<le> ms_val add m f q"
  by (induction m) (simp_all add: ms_val_Suc, simp add: ms_val_def)

lemma ms_val_ge: "1 \<le> j \<Longrightarrow> j \<le> m \<Longrightarrow> add (f j) (q j) \<le> ms_val add m f q"
proof (induction m)
  case 0
  then show ?case by simp
next
  case (Suc m)
  then show ?case by (cases "j = Suc m") (simp_all add: ms_val_Suc)
qed

lemma ms_val_le:
  "0 \<le> b \<Longrightarrow> (\<And>j. 1 \<le> j \<Longrightarrow> j \<le> m \<Longrightarrow> add (f j) (q j) \<le> b) \<Longrightarrow> ms_val add m f q \<le> b"
proof (induction m)
  case 0
  then show ?case by (simp add: ms_val_def)
next
  case (Suc m)
  then show ?case by (simp add: ms_val_Suc)
qed

lemma ms_val_cong:
  "(\<And>j. 1 \<le> j \<Longrightarrow> j \<le> m \<Longrightarrow> add (f j) (q j) = add' (f' j) (q' j)) \<Longrightarrow>
   ms_val add m f q = ms_val add' m f' q'"
proof (induction m)
  case 0
  show ?case by (simp add: ms_val_def)
next
  case (Suc m)
  then show ?case by (simp add: ms_val_Suc)
qed

lemma ms_val_good:
  assumes "good_row m r"
  shows "ms_val (+) m r (\<lambda>j. 0) = r m"
proof (rule antisym)
  show "ms_val (+) m r (\<lambda>j. 0) \<le> r m"
  proof (rule ms_val_le)
    show "0 \<le> r m" using assms by (rule good_row_nonneg) simp
    show "r j + 0 \<le> r m" if "j \<le> m" for j
      using good_row_mono [OF assms that] by simp
  qed
  show "r m \<le> ms_val (+) m r (\<lambda>j. 0)"
  proof (cases m)
    case 0
    then show ?thesis using assms by (simp add: good_row_def ms_val_def)
  next
    case (Suc k)
    then show ?thesis using ms_val_ge [of m m "(+)" r "\<lambda>j. 0"] by simp
  qed
qed

lemma bwd_row_nonneg:
  assumes "nonneg_times m t" and "\<And>l. 1 \<le> l \<Longrightarrow> l \<le> m \<Longrightarrow> 0 \<le> q l" and "1 \<le> j"
  shows "0 \<le> bwd_row (+) m t q j"
proof -
  have "0 \<le> bwd_aux (+) m t q d" if "d \<le> m" for d
    using that
  proof (induction d)
    case 0
    show ?case by simp
  next
    case (Suc d)
    then have "1 \<le> m - d" "m - d \<le> m" by simp_all
    then have "0 \<le> t (m - d)" "0 \<le> q (m - d)"
      using assms by (simp_all add: nonneg_times_def)
    then show ?case by simp
  qed
  from this [of "m + 1 - j"] show ?thesis using assms(3) by (simp add: bwd_row_def)
qed

lemma bwd_row_ge_below:
  "1 \<le> j \<Longrightarrow> j \<le> m \<Longrightarrow> q j + t j \<le> bwd_row (+) m t q j"
  by (simp add: bwd_row_rec)

lemma bwd_row_ge_right:
  "1 \<le> j \<Longrightarrow> j \<le> m \<Longrightarrow> bwd_row (+) m t q (Suc j) + t j \<le> bwd_row (+) m t q j"
  by (simp add: bwd_row_rec)

lemma exchange_le:
  fixes m :: nat and t q r :: "nat \<Rightarrow> int"
  assumes r: "\<And>l. 1 \<le> l \<Longrightarrow> l \<le> m \<Longrightarrow> 0 \<le> r l"
  defines "fr \<equiv> fwd_row (+) t r" and "br \<equiv> bwd_row (+) m t q"
  defines "R \<equiv> ms_val (+) m r br"
  shows "1 \<le> l \<Longrightarrow> l \<le> m \<Longrightarrow> b + t l \<le> br l \<Longrightarrow> fr l + b \<le> R"
proof (induction l arbitrary: b)
  case 0
  then show ?case by simp
next
  case (Suc l0)
  let ?l = "Suc l0"
  have top: "r ?l + br ?l \<le> R"
    unfolding R_def using Suc.prems(2) by (intro ms_val_ge) simp_all
  have fr: "fr ?l = max (fr l0) (r ?l) + t ?l" by (simp add: fr_def)
  show ?case
  proof (cases "fr l0 \<le> r ?l")
    case True
    then have "fr ?l + b = r ?l + (b + t ?l)" by (simp add: fr max_def)
    also have "\<dots> \<le> r ?l + br ?l" using Suc.prems(3) by simp
    finally show ?thesis using top by simp
  next
    case False
    then have eq: "fr ?l + b = fr l0 + (t ?l + b)" by (simp add: fr max_def)
    show ?thesis
    proof (cases l0)
      case 0
      have "0 \<le> r ?l" using Suc.prems(2) by (intro r) simp_all
      moreover have "fr l0 = 0" using 0 by (simp add: fr_def)
      ultimately have "fr ?l + b \<le> r ?l + br ?l" using eq Suc.prems(3) by simp
      then show ?thesis using top by simp
    next
      case (Suc k)
      have "br ?l + t l0 \<le> br l0"
        unfolding br_def using Suc Suc.prems(2) by (intro bwd_row_ge_right) simp_all
      then have "(t ?l + b) + t l0 \<le> br l0" using Suc.prems(3) by simp
      then have "fr l0 + (t ?l + b) \<le> R"
        using Suc Suc.prems(2) by (intro Suc.IH) simp_all
      then show ?thesis using eq by simp
    qed
  qed
qed

lemma exchange_ge:
  fixes m :: nat and t q r :: "nat \<Rightarrow> int"
  assumes q: "\<And>l. 1 \<le> l \<Longrightarrow> l \<le> m \<Longrightarrow> 0 \<le> q l"
  defines "fr \<equiv> fwd_row (+) t r" and "br \<equiv> bwd_row (+) m t q"
  defines "L \<equiv> ms_val (+) m fr q"
  shows "d < m \<Longrightarrow> a + t (m - d) \<le> fr (m - d) \<Longrightarrow> a + br (m - d) \<le> L"
proof (induction d arbitrary: a)
  case 0
  have m: "1 \<le> m" using 0 by simp
  have "br m = max (br (Suc m)) (q m) + t m"
    unfolding br_def using m by (intro bwd_row_rec) simp_all
  moreover have "br (Suc m) = 0" by (simp add: br_def bwd_row_beyond)
  moreover have "0 \<le> q m" using m by (intro q) simp_all
  ultimately have "a + br m = (a + t m) + q m" by simp
  also have "\<dots> \<le> fr m + q m" using 0 by simp
  also have "\<dots> \<le> L" unfolding L_def using m by (intro ms_val_ge) simp_all
  finally show ?case by simp
next
  case (Suc d)
  let ?c = "m - Suc d"
  have c: "1 \<le> ?c" "?c \<le> m" "Suc ?c = m - d" using Suc.prems by simp_all
  have br: "br ?c = max (br (Suc ?c)) (q ?c) + t ?c"
    unfolding br_def using c by (intro bwd_row_rec) simp_all
  have top: "fr ?c + q ?c \<le> L" unfolding L_def using c by (intro ms_val_ge) simp_all
  show ?case
  proof (cases "br (Suc ?c) \<le> q ?c")
    case True
    then have "a + br ?c = (a + t ?c) + q ?c" by (simp add: br max_def)
    also have "\<dots> \<le> fr ?c + q ?c" using Suc.prems(2) by simp
    finally show ?thesis using top by simp
  next
    case False
    then have "a + br ?c = (a + t ?c) + br (Suc ?c)" by (simp add: br max_def)
    also have "\<dots> \<le> fr ?c + br (m - d)" using Suc.prems(2) c by simp
    also have "\<dots> \<le> L"
    proof (rule Suc.IH)
      show "d < m" using Suc.prems by simp
      have "fr ?c + t (Suc ?c) \<le> fr (Suc ?c)" by (simp add: fr_def)
      then show "fr ?c + t (m - d) \<le> fr (m - d)" using c by simp
    qed
    finally show ?thesis .
  qed
qed

lemma exchange:
  assumes r: "\<And>l. 1 \<le> l \<Longrightarrow> l \<le> m \<Longrightarrow> 0 \<le> r l"
    and q: "\<And>l. 1 \<le> l \<Longrightarrow> l \<le> m \<Longrightarrow> 0 \<le> q l"
  shows "ms_val (+) m (fwd_row (+) t r) q = ms_val (+) m r (bwd_row (+) m t q)"
proof (rule antisym)
  show "ms_val (+) m (fwd_row (+) t r) q \<le> ms_val (+) m r (bwd_row (+) m t q)"
  proof (rule ms_val_le)
    show "0 \<le> ms_val (+) m r (bwd_row (+) m t q)" by (rule ms_val_nonneg)
    fix l assume l: "1 \<le> l" "l \<le> m"
    have "q l + t l \<le> bwd_row (+) m t q l" using l by (rule bwd_row_ge_below)
    then show "fwd_row (+) t r l + q l \<le> ms_val (+) m r (bwd_row (+) m t q)"
      using exchange_le [where b = "q l" and t = t and q = q and r = r and m = m and l = l] r l
      by simp
  qed
  show "ms_val (+) m r (bwd_row (+) m t q) \<le> ms_val (+) m (fwd_row (+) t r) q"
  proof (rule ms_val_le)
    show "0 \<le> ms_val (+) m (fwd_row (+) t r) q" by (rule ms_val_nonneg)
    fix c assume c: "1 \<le> c" "c \<le> m"
    have "r c + t c \<le> fwd_row (+) t r c" using c(1) by (rule fwd_row_ge)
    then show "r c + bwd_row (+) m t q c \<le> ms_val (+) m (fwd_row (+) t r) q"
      using exchange_ge [where d = "m - c" and a = "r c" and t = t and q = q and r = r and m = m]
        q c
      by simp
  qed
qed

lemma fwd_rows_append: "fwd_rows add (xs @ ys) r = fwd_rows add ys (fwd_rows add xs r)"
  by (simp add: fwd_rows_def)

lemma tail_nonneg:
  "\<forall>t\<in>set ts. nonneg_times m t \<Longrightarrow> 1 \<le> j \<Longrightarrow> 0 \<le> foldr (bwd_row (+) m) ts (\<lambda>j. 0) j"
proof (induction ts arbitrary: j)
  case Nil
  show ?case by simp
next
  case (Cons t ts)
  have "0 \<le> bwd_row (+) m t (foldr (bwd_row (+) m) ts (\<lambda>j. 0)) j"
    using Cons.prems by (intro bwd_row_nonneg Cons.IH) simp_all
  then show ?case by simp
qed

lemma taillard_rows:
  "\<forall>t\<in>set ts. nonneg_times m t \<Longrightarrow> good_row m r \<Longrightarrow>
   fwd_rows (+) ts r m = ms_val (+) m r (foldr (bwd_row (+) m) ts (\<lambda>j. 0))"
proof (induction ts arbitrary: r)
  case Nil
  then show ?case by (simp add: fwd_rows_def ms_val_good)
next
  case (Cons t ts)
  let ?q = "foldr (bwd_row (+) m) ts (\<lambda>j. 0)"
  have t: "nonneg_times m t" and ts: "\<forall>t\<in>set ts. nonneg_times m t"
    using Cons.prems by simp_all
  have "fwd_rows (+) (t # ts) r m = fwd_rows (+) ts (fwd_row (+) t r) m"
    by (simp add: fwd_rows_def)
  also have "\<dots> = ms_val (+) m (fwd_row (+) t r) ?q"
    by (rule Cons.IH [OF ts fwd_row_good [OF t]])
  also have "\<dots> = ms_val (+) m r (bwd_row (+) m t ?q)"
  proof (rule exchange)
    show "0 \<le> r l" if "l \<le> m" for l using Cons.prems(2) that by (rule good_row_nonneg)
    show "0 \<le> ?q l" if "1 \<le> l" for l using ts that by (rule tail_nonneg)
  qed
  finally show ?case by simp
qed

lemma makespan_insert_at:
  assumes seq: "\<forall>job\<in>set seq. nonneg_times m (job_time p job)"
    and ins: "nonneg_times m (job_time p ins)"
  shows "fwd_rows (+) (map (job_time p) (insert_at seq ins k)) (\<lambda>j. 0) m
           = MS_val (+) m p seq ins k"
proof -
  let ?pre = "map (job_time p) (take (k - 1) seq)"
  let ?post = "map (job_time p) (drop (k - 1) seq)"
  have post: "\<forall>t\<in>set ?post. nonneg_times m t"
    using seq by (auto dest: in_set_dropD)
  have one: "fwd_rows (+) [t] r = fwd_row (+) t r" for t r
    by (simp add: fwd_rows_def)
  have "fwd_rows (+) (map (job_time p) (insert_at seq ins k)) (\<lambda>j. 0) m
          = fwd_rows (+) ?post (fwd_rows (+) [job_time p ins] (fwd_rows (+) ?pre (\<lambda>j. 0))) m"
    by (simp only: insert_at_def map_append fwd_rows_append list.map)
  also have "\<dots> = fwd_rows (+) ?post (fwd_row (+) (job_time p ins) (E_row (+) p seq (k - 1))) m"
    by (simp only: one E_row_def)
  also have "\<dots> = ms_val (+) m (fwd_row (+) (job_time p ins) (E_row (+) p seq (k - 1)))
                        (foldr (bwd_row (+) m) ?post (\<lambda>j. 0))"
    by (rule taillard_rows [OF post fwd_row_good [OF ins]])
  finally show ?thesis by (simp only: MS_val_def F_row_def Q_row_def)
qed

lemma bwd_aux_cong:
  "(\<And>l. 1 \<le> l \<Longrightarrow> l \<le> m \<Longrightarrow> q l = q' l) \<Longrightarrow> d \<le> m \<Longrightarrow>
   bwd_aux add m t q d = bwd_aux add m t q' d"
  by (induction d) simp_all

lemma bwd_row_cong:
  "(\<And>l. 1 \<le> l \<Longrightarrow> l \<le> m \<Longrightarrow> q l = q' l) \<Longrightarrow> 1 \<le> j \<Longrightarrow>
   bwd_row add m t q j = bwd_row add m t q' j"
  unfolding bwd_row_def by (rule bwd_aux_cong) simp_all

lemma bwd_aux_mono:
  assumes "nonneg_times m t"
  shows "d \<le> d' \<Longrightarrow> d' \<le> m \<Longrightarrow> bwd_aux (+) m t q d \<le> bwd_aux (+) m t q d'"
proof (induction d' rule: dec_induct)
  case base
  show ?case by simp
next
  case (step k)
  have "0 \<le> t (m - k)" using assms step.prems by (simp add: nonneg_times_def)
  then have "bwd_aux (+) m t q k \<le> bwd_aux (+) m t q (Suc k)" by simp
  with step show ?case by simp
qed

lemma bwd_aux_nonneg:
  assumes "nonneg_times m t" and "\<And>l. 1 \<le> l \<Longrightarrow> l \<le> m \<Longrightarrow> 0 \<le> q l"
  shows "d \<le> m \<Longrightarrow> 0 \<le> bwd_aux (+) m t q d"
  using bwd_aux_mono [OF assms(1), of 0 d q] by simp

lemma bwd_aux_wrap:
  assumes t: "nonneg_times m t" and q: "\<And>l. 1 \<le> l \<Longrightarrow> l \<le> m \<Longrightarrow> 0 \<le> q l"
    and small: "bwd_aux (+) m t q m < 2147483648"
  shows "d \<le> m \<Longrightarrow> bwd_aux add32 m t q d = bwd_aux (+) m t q d"
proof (induction d)
  case 0
  show ?case by simp
next
  case (Suc d)
  have "bwd_aux (+) m t q (Suc d) \<le> bwd_aux (+) m t q m"
    using t Suc.prems by (intro bwd_aux_mono) simp_all
  then have hi: "bwd_aux (+) m t q (Suc d) < 2147483648" using small by simp
  have lo: "0 \<le> bwd_aux (+) m t q (Suc d)"
    using t q Suc.prems by (rule bwd_aux_nonneg)
  have "bwd_aux add32 m t q (Suc d)
          = add32 (max (bwd_aux (+) m t q d) (q (m - d))) (t (m - d))"
    using Suc by simp
  also have "\<dots> = bwd_aux (+) m t q (Suc d)"
    using hi lo by (simp add: add32_exact)
  finally show ?case .
qed

lemma bwd_row_wrap:
  assumes t: "nonneg_times m t" and q: "\<And>l. 1 \<le> l \<Longrightarrow> l \<le> m \<Longrightarrow> 0 \<le> q l"
    and small: "bwd_row (+) m t q 1 < 2147483648" and j: "1 \<le> j"
  shows "bwd_row add32 m t q j = bwd_row (+) m t q j"
proof -
  have "bwd_aux (+) m t q m < 2147483648" using small by (simp add: bwd_row_def)
  from bwd_aux_wrap [OF t q this, of "m + 1 - j"] j show ?thesis
    by (simp add: bwd_row_def)
qed

lemma tail_beyond: "m < j \<Longrightarrow> foldr (bwd_row add m) ts (\<lambda>j. 0) j = 0"
  by (cases ts) (simp_all add: bwd_row_beyond)

lemma tail_bound:
  assumes ts: "\<forall>t\<in>set ts. nonneg_times m t" and j: "1 \<le> j"
  shows "foldr (bwd_row (+) m) ts (\<lambda>j. 0) j \<le> (\<Sum>t\<leftarrow>ts. \<Sum>l = 1..m. t l)"
proof (cases "j \<le> m")
  case True
  let ?q = "foldr (bwd_row (+) m) ts (\<lambda>j. 0)"
  have "0 + ?q j \<le> ms_val (+) m (\<lambda>j. 0) ?q" using j True by (rule ms_val_ge)
  also have "\<dots> = fwd_rows (+) ts (\<lambda>j. 0) m"
    using ts good_row_zero by (rule taillard_rows [symmetric])
  also have "\<dots> \<le> 0 + (\<Sum>t\<leftarrow>ts. \<Sum>l = 1..m. t l)"
    using ts good_row_zero by (rule fwd_rows_bound)
  finally show ?thesis by simp
next
  case False
  then have "foldr (bwd_row (+) m) ts (\<lambda>j. 0) j = 0" by (intro tail_beyond) simp
  moreover have "0 \<le> (\<Sum>t\<leftarrow>ts. \<Sum>l = 1..m. t l)"
    using ts by (intro sum_list_nonneg) (auto simp: nonneg_times_def intro!: sum_nonneg)
  ultimately show ?thesis by simp
qed

lemma tail_wrap:
  "\<forall>t\<in>set ts. nonneg_times m t \<Longrightarrow> (\<Sum>t\<leftarrow>ts. \<Sum>l = 1..m. t l) < 2147483648 \<Longrightarrow> 1 \<le> j \<Longrightarrow>
   foldr (bwd_row add32 m) ts (\<lambda>j. 0) j = foldr (bwd_row (+) m) ts (\<lambda>j. 0) j"
proof (induction ts arbitrary: j)
  case Nil
  show ?case by simp
next
  case (Cons t ts)
  let ?q32 = "foldr (bwd_row add32 m) ts (\<lambda>j. 0)"
  let ?q = "foldr (bwd_row (+) m) ts (\<lambda>j. 0)"
  have t: "nonneg_times m t" and ts: "\<forall>t\<in>set ts. nonneg_times m t"
    using Cons.prems by simp_all
  have "0 \<le> (\<Sum>l = 1..m. t l)" using t by (intro sum_nonneg) (simp add: nonneg_times_def)
  then have small': "(\<Sum>t\<leftarrow>ts. \<Sum>l = 1..m. t l) < 2147483648" using Cons.prems(2) by simp
  have "bwd_row (+) m t ?q 1 = foldr (bwd_row (+) m) (t # ts) (\<lambda>j. 0) 1" by simp
  also have "\<dots> \<le> (\<Sum>t\<leftarrow>t # ts. \<Sum>l = 1..m. t l)"
    using Cons.prems(1) by (intro tail_bound) simp_all
  finally have small1: "bwd_row (+) m t ?q 1 < 2147483648" using Cons.prems(2) by simp
  have "foldr (bwd_row add32 m) (t # ts) (\<lambda>j. 0) j = bwd_row add32 m t ?q32 j" by simp
  also have "\<dots> = bwd_row add32 m t ?q j"
    using Cons.prems(3) ts small' by (intro bwd_row_cong Cons.IH) simp_all
  also have "\<dots> = bwd_row (+) m t ?q j"
    using t small1 Cons.prems(3) ts by (intro bwd_row_wrap tail_nonneg) simp_all
  finally show ?case by simp
qed

lemma total_time_rows:
  "(\<Sum>t\<leftarrow>map (job_time p) jobs. \<Sum>l = 1..m. t l) = total_time p m jobs"
  by (simp add: total_time_def job_total_sum comp_def)

lemma Q_row_wrap:
  assumes nn: "\<forall>job\<in>set seq. nonneg_times m (job_time p job)"
    and small: "total_time p m seq < 2147483648" and j: "1 \<le> j"
  shows "Q_row add32 m p seq i j = Q_row (+) m p seq i j"
  unfolding Q_row_def
proof (rule tail_wrap)
  show "\<forall>t\<in>set (map (job_time p) (drop (i - 1) seq)). nonneg_times m t"
    using nn by (auto dest: in_set_dropD)
  have "total_time p m (drop (i - 1) seq) \<le> total_time p m seq"
    using nn by (rule total_time_drop)
  then show "(\<Sum>t\<leftarrow>map (job_time p) (drop (i - 1) seq). \<Sum>l = 1..m. t l) < 2147483648"
    using small by (simp only: total_time_rows)
  show "1 \<le> j" by (rule j)
qed

lemma Q_row_nonneg:
  assumes nn: "\<forall>job\<in>set seq. nonneg_times m (job_time p job)" and j: "1 \<le> j"
  shows "0 \<le> Q_row (+) m p seq i j"
  unfolding Q_row_def
proof (rule tail_nonneg)
  show "\<forall>t\<in>set (map (job_time p) (drop (i - 1) seq)). nonneg_times m t"
    using nn by (auto dest: in_set_dropD)
  show "1 \<le> j" by (rule j)
qed

lemma F_row_good:
  assumes "nonneg_times m (job_time p ins)"
  shows "good_row m (F_row (+) p seq ins k)"
  unfolding F_row_def using assms by (rule fwd_row_good)

lemma F_row_wrap:
  assumes nn: "\<forall>job\<in>set seq. nonneg_times m (job_time p job)"
    and ins: "nonneg_times m (job_time p ins)"
    and small: "total_time p m seq + job_total p m ins < 2147483648"
    and k: "1 \<le> k" "k \<le> length seq + 1" and j: "j \<le> m"
  shows "F_row add32 p seq ins k j = F_row (+) p seq ins k j"
proof -
  let ?t = "job_time p ins"
  let ?r = "E_row (+) p seq (k - 1)"
  have t0: "0 \<le> job_total p m ins"
    unfolding job_total_sum using ins by (intro sum_nonneg) (simp add: nonneg_times_def)
  then have sm: "total_time p m seq < 2147483648" using small by simp
  have g: "good_row m ?r" using nn by (rule E_row_good)
  have "fwd_row (+) ?t ?r m \<le> ?r m + (\<Sum>l = 1..m. ?t l)"
    using g ins by (intro fwd_row_bound [of m]) simp_all
  also have "\<dots> \<le> total_time p m seq + job_total p m ins"
    using E_row_bound [OF nn, of "k - 1"] by (simp add: job_total_sum)
  finally have sm2: "fwd_row (+) ?t ?r m < 2147483648" using small by simp
  have "F_row add32 p seq ins k j = fwd_row add32 ?t (E_row add32 p seq (k - 1)) j"
    by (simp add: F_row_def)
  also have "\<dots> = fwd_row add32 ?t ?r j"
    using k j by (intro fwd_row_cong E_row_wrap [OF nn sm]) simp_all
  also have "\<dots> = fwd_row (+) ?t ?r j"
    using ins sm2 j g by (intro fwd_row_wrap [of m]) (simp_all add: good_row_nonneg)
  finally show ?thesis by (simp add: F_row_def)
qed

lemma total_time_insert_at:
  "total_time p m (insert_at seq ins k) = total_time p m seq + job_total p m ins"
proof -
  have "total_time p m (insert_at seq ins k)
          = total_time p m (take (k - 1) seq) + job_total p m ins + total_time p m (drop (k - 1) seq)"
    by (simp add: insert_at_def total_time_def)
  also have "total_time p m seq
          = total_time p m (take (k - 1) seq) + total_time p m (drop (k - 1) seq)"
    using total_time_append [of p m "take (k - 1) seq" "drop (k - 1) seq"] by simp
  ultimately show ?thesis by simp
qed

lemma set_insert_at: "set (insert_at seq ins k) = insert ins (set seq)"
proof -
  have "set (take (k - 1) seq) \<union> set (drop (k - 1) seq) = set seq"
    using set_append [of "take (k - 1) seq" "drop (k - 1) seq"] by simp
  then show ?thesis by (auto simp: insert_at_def)
qed

lemma MS_val_bound:
  assumes nn: "\<forall>job\<in>set seq. nonneg_times m (job_time p job)"
    and ins: "nonneg_times m (job_time p ins)"
  shows "MS_val (+) m p seq ins k \<le> total_time p m seq + job_total p m ins"
proof -
  have all: "\<forall>job\<in>set (insert_at seq ins k). nonneg_times m (job_time p job)"
    using nn ins by (simp add: set_insert_at)
  have "MS_val (+) m p seq ins k
          = fwd_rows (+) (map (job_time p) (insert_at seq ins k)) (\<lambda>j. 0) m"
    using nn ins by (rule makespan_insert_at [symmetric])
  also have "\<dots> \<le> total_time p m (insert_at seq ins k)"
    using all by (rule makespan_bound)
  finally show ?thesis by (simp add: total_time_insert_at)
qed

lemma MS_val_wrap:
  assumes nn: "\<forall>job\<in>set seq. nonneg_times m (job_time p job)"
    and ins: "nonneg_times m (job_time p ins)"
    and small: "total_time p m seq + job_total p m ins < 2147483648"
    and k: "1 \<le> k" "k \<le> length seq + 1"
  shows "MS_val add32 m p seq ins k = MS_val (+) m p seq ins k"
  unfolding MS_val_def
proof (rule ms_val_cong)
  fix j assume j: "1 \<le> j" "j \<le> m"
  let ?F = "F_row (+) p seq ins k" and ?Q = "Q_row (+) m p seq k"
  have t0: "0 \<le> job_total p m ins"
    unfolding job_total_sum using ins by (intro sum_nonneg) (simp add: nonneg_times_def)
  then have sm: "total_time p m seq < 2147483648" using small by simp
  have F: "F_row add32 p seq ins k j = ?F j"
    using nn ins small k j(2) by (rule F_row_wrap)
  have Q: "Q_row add32 m p seq k j = ?Q j"
    using nn sm j(1) by (rule Q_row_wrap)
  have "?F j + ?Q j \<le> ms_val (+) m ?F ?Q" using j by (rule ms_val_ge)
  also have "\<dots> \<le> total_time p m seq + job_total p m ins"
    using MS_val_bound [OF nn ins, of k] by (simp add: MS_val_def)
  finally have hi: "?F j + ?Q j < 2147483648" using small by simp
  have "0 \<le> ?F j" using F_row_good [OF ins] j(2) by (rule good_row_nonneg)
  moreover have "0 \<le> ?Q j" using nn j(1) by (rule Q_row_nonneg)
  ultimately have "add32 (?F j) (?Q j) = ?F j + ?Q j" using hi by (simp add: add32_exact)
  then show "add32 (F_row add32 p seq ins k j) (Q_row add32 m p seq k j) = ?F j + ?Q j"
    by (simp only: F Q)
qed

lemma makespan_at_ideal:
  assumes nn: "\<forall>job\<in>set seq. nonneg_times m (job_time p job)"
    and ins: "nonneg_times m (job_time p ins)"
    and small: "total_time p m seq + job_total p m ins < 2147483648"
  shows "makespan_at seq p ins m k = MS_val (+) m p seq ins k"
proof -
  let ?s = "insert_at seq ins k"
  have all: "\<forall>job\<in>set ?s. nonneg_times m (job_time p job)"
    using nn ins by (simp add: set_insert_at)
  have sm: "total_time p m ?s < 2147483648"
    using small by (simp add: total_time_insert_at)
  have "makespan_at seq p ins m k = get2 (cct_table ?s p m) (length ?s) m"
    by (simp add: makespan_at_def calculate_completion_times_def)
  also have "\<dots> = E_row add32 p ?s (length ?s) m"
    by (rule cct_table_cells) simp_all
  also have "\<dots> = E_row (+) p ?s (length ?s) m"
    using all sm by (rule E_row_wrap) simp_all
  also have "\<dots> = fwd_rows (+) (map (job_time p) ?s) (\<lambda>j. 0) m"
    by (simp add: E_row_def)
  also have "\<dots> = MS_val (+) m p seq ins k"
    using nn ins by (rule makespan_insert_at)
  finally show ?thesis .
qed

lemma MS_val_makespan_at:
  assumes nn: "\<forall>job\<in>set seq. nonneg_times m (job_time p job)"
    and ins: "nonneg_times m (job_time p ins)"
    and small: "total_time p m seq + job_total p m ins < 2147483648"
    and k: "1 \<le> k" "k \<le> length seq + 1"
  shows "MS_val add32 m p seq ins k = makespan_at seq p ins m k"
  using MS_val_wrap [OF assms] makespan_at_ideal [OF nn ins small, of k] by simp

section \<open>The best insertion position\<close>

lemma best_of_Suc: "best_of v (Suc k) = pick v (Suc k) (best_of v k)"
  by (simp add: best_of_def)

lemma best_of_cong:
  "(\<And>i. 1 \<le> i \<Longrightarrow> i \<le> k \<Longrightarrow> v i = w i) \<Longrightarrow> best_of v k = best_of w k"
proof (induction k)
  case 0
  show ?case by (simp add: best_of_def)
next
  case (Suc k)
  have "v (Suc k) = w (Suc k)" using Suc.prems [of "Suc k"] by simp
  then have "pick v (Suc k) = pick w (Suc k)" by (simp only: pick_def)
  then show ?case using Suc by (simp add: best_of_Suc)
qed

lemma best_of_positive:
  assumes pos: "\<And>i. 1 \<le> i \<Longrightarrow> i \<le> k \<Longrightarrow> 0 < v i"
  shows "1 \<le> k \<Longrightarrow> first_min v k (fst (best_of v k)) (snd (best_of v k))"
  using pos
proof (induction k)
  case 0
  then show ?case by simp
next
  case (Suc k)
  show ?case
  proof (cases "k = 0")
    case True
    then show ?thesis by (auto simp: best_of_def pick_def first_min_def le_Suc_eq)
  next
    case False
    obtain b bp where bo: "best_of v k = (b, bp)" by (cases "best_of v k")
    have IH: "first_min v k b bp"
      using Suc.IH False Suc.prems(2) bo by simp
    then have b: "0 < b" using Suc.prems(2) [of bp] by (simp add: first_min_def)
    show ?thesis
    proof (cases "v (Suc k) < b")
      case True
      then have "best_of v (Suc k) = (v (Suc k), Suc k)"
        by (simp add: best_of_Suc bo pick_def)
      moreover have "first_min v (Suc k) (v (Suc k)) (Suc k)"
        unfolding first_min_def
      proof (intro conjI allI impI)
        fix i assume "1 \<le> i \<and> i \<le> Suc k"
        then show "v (Suc k) \<le> v i"
          using IH True by (cases "i = Suc k") (auto simp: first_min_def)
      next
        fix i assume "1 \<le> i \<and> i < Suc k"
        then have "b \<le> v i" using IH by (simp add: first_min_def)
        then show "v (Suc k) < v i" using True by simp
      qed simp_all
      ultimately show ?thesis by simp
    next
      case False
      then have "best_of v (Suc k) = (b, bp)"
        using b by (simp add: best_of_Suc bo pick_def)
      moreover have "first_min v (Suc k) b bp"
        unfolding first_min_def
      proof (intro conjI allI impI)
        fix i assume "1 \<le> i \<and> i \<le> Suc k"
        then show "b \<le> v i"
          using IH False by (cases "i = Suc k") (auto simp: first_min_def)
      qed (use IH in \<open>simp_all add: first_min_def\<close>)
      ultimately show ?thesis by simp
    qed
  qed
qed

lemma best_of_zero:
  "(\<And>i. 1 \<le> i \<Longrightarrow> i \<le> k \<Longrightarrow> v i = 0) \<Longrightarrow> fst (best_of v k) = 0"
proof (induction k)
  case 0
  show ?case by (simp add: best_of_def)
next
  case (Suc k)
  then have "fst (best_of v k) = 0" "v (Suc k) = 0" by simp_all
  then show ?case by (cases "best_of v k") (simp add: best_of_Suc pick_def)
qed

lemma first_min_Min:
  assumes "first_min v k b pos"
  shows "b = Min (v ` {1..k})"
proof -
  have "pos \<in> {1..k}" using assms by (simp add: first_min_def)
  then have "b \<in> v ` {1..k}" using assms by (auto simp: first_min_def)
  moreover have "\<forall>x\<in>v ` {1..k}. b \<le> x" using assms by (auto simp: first_min_def)
  ultimately show ?thesis by (intro Min_eqI [symmetric]) auto
qed

lemma fwd_rows_ge_start:
  "\<forall>t\<in>set ts. nonneg_times m t \<Longrightarrow> good_row m r \<Longrightarrow> 1 \<le> m \<Longrightarrow> r m \<le> fwd_rows (+) ts r m"
proof (induction ts arbitrary: r)
  case Nil
  show ?case by (simp add: fwd_rows_def)
next
  case (Cons t ts)
  have t: "nonneg_times m t" using Cons.prems by simp
  have "0 \<le> t m" using t Cons.prems(3) by (simp add: nonneg_times_def)
  moreover have "r m + t m \<le> fwd_row (+) t r m" using Cons.prems(3) by (rule fwd_row_ge)
  ultimately have "r m \<le> fwd_row (+) t r m" by simp
  also have "\<dots> \<le> fwd_rows (+) ts (fwd_row (+) t r) m"
    using Cons.prems t by (intro Cons.IH fwd_row_good) simp_all
  finally show ?case by (simp add: fwd_rows_def)
qed

lemma makespan_ge_time:
  "\<forall>t\<in>set ts. nonneg_times m t \<Longrightarrow> good_row m r \<Longrightarrow> t \<in> set ts \<Longrightarrow> 1 \<le> j \<Longrightarrow> j \<le> m \<Longrightarrow>
   t j \<le> fwd_rows (+) ts r m"
proof (induction ts arbitrary: r)
  case Nil
  then show ?case by simp
next
  case (Cons t' ts)
  have t': "nonneg_times m t'" using Cons.prems by simp
  have g: "good_row m (fwd_row (+) t' r)" using t' by (rule fwd_row_good)
  have unfold: "fwd_rows (+) (t' # ts) r m = fwd_rows (+) ts (fwd_row (+) t' r) m"
    by (simp add: fwd_rows_def)
  show ?case
  proof (cases "t = t'")
    case True
    have "0 \<le> r j" using Cons.prems(2,5) by (rule good_row_nonneg)
    moreover have "r j + t' j \<le> fwd_row (+) t' r j" using Cons.prems(4) by (rule fwd_row_ge)
    ultimately have "t' j \<le> fwd_row (+) t' r j" by simp
    also have "\<dots> \<le> fwd_row (+) t' r m"
      using g Cons.prems(5) by (intro good_row_mono [of m]) simp_all
    also have "\<dots> \<le> fwd_rows (+) ts (fwd_row (+) t' r) m"
      using Cons.prems g by (intro fwd_rows_ge_start) simp_all
    finally show ?thesis using True unfold by simp
  next
    case False
    then have "t \<in> set ts" using Cons.prems(3) by simp
    then have "t j \<le> fwd_rows (+) ts (fwd_row (+) t' r) m"
      using Cons.prems g by (intro Cons.IH) simp_all
    then show ?thesis using unfold by simp
  qed
qed

lemma sum_list_zero: "(\<And>x. x \<in> set xs \<Longrightarrow> f x = (0::int)) \<Longrightarrow> sum_list (map f xs) = 0"
  by (induction xs) simp_all

lemma MS_val_zero_all:
  assumes nn: "\<forall>job\<in>set seq. nonneg_times m (job_time p job)"
    and ins: "nonneg_times m (job_time p ins)"
    and zero: "MS_val (+) m p seq ins k0 \<le> 0"
  shows "MS_val (+) m p seq ins k = 0"
proof -
  let ?s = "insert_at seq ins k0"
  have all: "\<forall>t\<in>set (map (job_time p) ?s). nonneg_times m t"
    using nn ins by (simp add: set_insert_at)
  have mk: "fwd_rows (+) (map (job_time p) ?s) (\<lambda>j. 0) m \<le> 0"
    using zero makespan_insert_at [OF nn ins, of k0] by simp
  have z: "job_time p job j = 0" if job: "job \<in> insert ins (set seq)" and j: "1 \<le> j" "j \<le> m"
    for job j
  proof -
    have mem: "job_time p job \<in> set (map (job_time p) ?s)"
      using job by (auto simp: set_insert_at)
    have "job_time p job j \<le> fwd_rows (+) (map (job_time p) ?s) (\<lambda>j. 0) m"
      by (rule makespan_ge_time [OF all good_row_zero mem j])
    moreover have "0 \<le> job_time p job j"
      using job nn ins j by (auto simp: nonneg_times_def)
    ultimately show ?thesis using mk by simp
  qed
  have jt: "job_total p m job = 0" if "job \<in> insert ins (set seq)" for job
    unfolding job_total_sum using that z by (intro sum.neutral) simp
  have "total_time p m seq = 0"
    unfolding total_time_def using jt by (intro sum_list_zero) simp
  then have "MS_val (+) m p seq ins k \<le> 0"
    using MS_val_bound [OF nn ins, of k] jt [of ins] by simp
  moreover have "0 \<le> MS_val (+) m p seq ins k"
    by (simp add: MS_val_def ms_val_nonneg)
  ultimately show ?thesis by simp
qed

lemma total_time_snoc:
  "total_time p m (seq @ [job]) = total_time p m seq + job_total p m job"
  by (simp add: total_time_def)

lemma fwd_row_zero_sum:
  assumes "nonneg_times m t"
  shows "j \<le> m \<Longrightarrow> fwd_row (+) t (\<lambda>j. 0) j = (\<Sum>l = 1..j. t l)"
proof (induction j)
  case 0
  show ?case by simp
next
  case (Suc j)
  have "0 \<le> (\<Sum>l = 1..j. t l)"
    using assms Suc.prems by (intro sum_nonneg) (simp add: nonneg_times_def)
  then show ?case using Suc by simp
qed

text \<open>
  Claim C1, as the code has it. Within the declared capacity (in particular for sequences
  of length at most 8 and at most 4 machines), for a rectangular non-negative matrix and
  job ids in range, provided the processing times of the sequence's jobs and of the
  inserting job on the machines \<open>1 .. m\<close> sum to less than \<open>2^31\<close>: the makespan that
  \<open>taillard_acceleration\<close> returns with \<open>use_tie_breaking = 0\<close> is the minimum, over the
  \<open>n + 1\<close> insertion positions, of the scalar of \<open>calculate_completion_times\<close> on the
  sequence with the job inserted there; and when that minimum is not 0, the position
  returned is the smallest index where it is taken. (Distinct job ids are not needed.)
\<close>

theorem best_insertion_is_brute_force_minimum:
  assumes "rectangular p cols" and "num_machines \<le> cols" and "nonnegative p"
    and "jobs_in_range p (seq @ [inserting_job])"
    and "length seq < 800" and "num_machines < 60"
    and "total_time p num_machines (seq @ [inserting_job]) < 2147483648"
  shows "case taillard_acceleration st seq p inserting_job num_machines 0 of
           (best_position, best_makespan) \<Rightarrow>
             best_makespan
               = Min (makespan_at seq p inserting_job num_machines ` {1..length seq + 1}) \<and>
             (best_makespan \<noteq> 0 \<longrightarrow>
                first_min (makespan_at seq p inserting_job num_machines) (length seq + 1)
                  best_makespan best_position)"
proof -
  let ?m = num_machines and ?ins = inserting_job
  let ?n1 = "length seq + 1"
  let ?w = "makespan_at seq p ?ins ?m"
  have all: "\<forall>job\<in>set (seq @ [?ins]). nonneg_times ?m (job_time p job)"
    using assms(1-4) by (rule valid_jobs_nonneg)
  then have nn: "\<forall>job\<in>set seq. nonneg_times ?m (job_time p job)"
    and ins: "nonneg_times ?m (job_time p ?ins)" by simp_all
  have small: "total_time p ?m seq + job_total p ?m ?ins < 2147483648"
    using assms(7) by (simp add: total_time_snoc)
  have "best_of (MS_val add32 ?m p seq ?ins) ?n1 = best_of ?w ?n1"
    by (rule best_of_cong) (rule MS_val_makespan_at [OF nn ins small])
  then have res: "taillard_acceleration st seq p ?ins ?m 0
                    = (snd (best_of ?w ?n1), fst (best_of ?w ?n1))"
    by (simp add: taillard_acceleration_plain)
  have ideal: "?w k = MS_val (+) ?m p seq ?ins k" for k
    using nn ins small by (rule makespan_at_ideal)
  show ?thesis
  proof (cases "\<forall>k. 1 \<le> k \<and> k \<le> ?n1 \<longrightarrow> 0 < ?w k")
    case True
    then have fm: "first_min ?w ?n1 (fst (best_of ?w ?n1)) (snd (best_of ?w ?n1))"
      by (intro best_of_positive) simp_all
    then have "fst (best_of ?w ?n1) = Min (?w ` {1..?n1})" by (rule first_min_Min)
    with fm show ?thesis by (simp add: res)
  next
    case False
    then obtain k0 where "?w k0 \<le> 0" by (auto simp: not_less)
    then have "MS_val (+) ?m p seq ?ins k0 \<le> 0" by (simp add: ideal)
    then have zero: "?w k = 0" for k
      using MS_val_zero_all [OF nn ins, of k0 k] by (simp add: ideal)
    then have "fst (best_of ?w ?n1) = 0" by (intro best_of_zero) simp
    moreover have "?w ` {1..?n1} = {0}" using zero by auto
    ultimately show ?thesis by (simp add: res)
  qed
qed

theorem best_insertion_is_brute_force_minimum_witness:
  "taillard_acceleration (uniform_scratch 0) [1, 2] [[3, 2], [2, 4], [1, 1]] 3 2 0 = (1, 10) \<and>
   10 = Min (makespan_at [1, 2] [[3, 2], [2, 4], [1, 1]] 3 2 ` {1..length [1, 2 :: int] + 1}) \<and>
   first_min (makespan_at [1, 2] [[3, 2], [2, 4], [1, 1]] 3 2) (length [1, 2 :: int] + 1) 10 1"
proof -
  let ?p = "[[3, 2], [2, 4], [1, 1 :: int]]"
  have 1: "rectangular ?p 2" by code_simp
  have 2: "nonnegative ?p" by code_simp
  have 3: "jobs_in_range ?p ([1, 2] @ [3])" by code_simp
  have 4: "length [1, 2 :: int] < 800" by simp
  have 5: "(2 :: nat) < 60" by simp
  have 6: "total_time ?p 2 ([1, 2] @ [3]) < 2147483648" by code_simp
  have r: "taillard_acceleration (uniform_scratch 0) [1, 2] ?p 3 2 0 = (1, 10)" by code_simp
  from best_insertion_is_brute_force_minimum [OF 1 order_refl 2 3 4 5 6, of "uniform_scratch 0"]
  show ?thesis unfolding r by simp
qed

text \<open>
  The claim as stated fails in two ways. When the minimum makespan is 0, the test
  \<^verbatim>\<open>best_makespan == 0\<close> of line 92 lets every later position replace the best one, and
  the last position is returned instead of the first. And the values are 32-bit: with the
  times 2147483647 and 1 both brute-force makespans wrap around to \<open>-2^31\<close>, while
  \<open>taillard_acceleration\<close> returns 0.
\<close>

theorem best_insertion_counterexample:
  "taillard_acceleration (uniform_scratch 0) [1] [[0], [0]] 2 1 0 = (2, 0) \<and>
   makespan_at [1] [[0], [0]] 2 1 1 = 0 \<and>
   taillard_acceleration (uniform_scratch 0) [1] [[2147483647], [1]] 2 1 0 = (2, 0) \<and>
   makespan_at [1] [[2147483647], [1]] 2 1 1 = - 2147483648 \<and>
   makespan_at [1] [[2147483647], [1]] 2 1 2 = - 2147483648"
  by code_simp

section \<open>Inserting into the empty sequence\<close>

text \<open>
  Claim C5, as the code has it. For an inserting job in range and a rectangular
  non-negative matrix, with at most 60 machines and provided the inserting job's processing
  times on the machines \<open>1 .. num_machines\<close> sum to less than \<open>2^31\<close>, the call with an
  empty sequence and \<open>use_tie_breaking = 0\<close> returns position 1 and that sum as makespan.
\<close>

theorem empty_sequence_insertion:
  assumes "rectangular p cols" and "num_machines \<le> cols" and "nonnegative p"
    and "1 \<le> inserting_job" and "inserting_job \<le> int (length p)"
    and "num_machines \<le> 60"
    and "job_total p num_machines inserting_job < 2147483648"
  shows "taillard_acceleration st [] p inserting_job num_machines 0
           = (1, job_total p num_machines inserting_job)"
proof -
  let ?m = num_machines and ?ins = inserting_job
  have ins: "nonneg_times ?m (job_time p ?ins)"
    using assms(1-5) by (rule job_time_nonneg)
  have nn: "\<forall>job\<in>set []. nonneg_times ?m (job_time p job)" by simp
  have small: "total_time p ?m [] + job_total p ?m ?ins < 2147483648"
    using assms(7) by (simp add: total_time_def)
  have "MS_val add32 ?m p [] ?ins 1 = MS_val (+) ?m p [] ?ins 1"
    using nn ins small by (rule MS_val_wrap) simp_all
  also have "\<dots> = ms_val (+) ?m (F_row (+) p [] ?ins 1) (\<lambda>j. 0)"
    by (simp add: MS_val_def Q_row_def)
  also have "\<dots> = F_row (+) p [] ?ins 1 ?m"
    using ins by (intro ms_val_good F_row_good)
  also have "\<dots> = fwd_row (+) (job_time p ?ins) (\<lambda>j. 0) ?m"
    by (simp add: F_row_def E_row_0)
  also have "\<dots> = job_total p ?m ?ins"
    using ins by (simp add: fwd_row_zero_sum job_total_sum)
  finally have v: "MS_val add32 ?m p [] ?ins 1 = job_total p ?m ?ins" .
  have "best_of (MS_val add32 ?m p [] ?ins) 1 = (job_total p ?m ?ins, 1)"
    using v by (simp add: best_of_def pick_def)
  then show ?thesis by (simp add: taillard_acceleration_plain)
qed

theorem empty_sequence_insertion_witness:
  "taillard_acceleration (uniform_scratch 7) [] [[3, 2], [2, 4], [1, 1]] 2 2 0 = (1, 6)"
proof -
  let ?p = "[[3, 2], [2, 4], [1, 1 :: int]]"
  have 1: "rectangular ?p 2" by code_simp
  have 2: "nonnegative ?p" by code_simp
  have 3: "(1 :: int) \<le> 2" "(2 :: int) \<le> int (length ?p)" by simp_all
  have 4: "(2 :: nat) \<le> 60" by simp
  have 5: "job_total ?p 2 2 < 2147483648" by code_simp
  have 6: "job_total ?p 2 2 = 6" by code_simp
  from empty_sequence_insertion [OF 1 order_refl 2 3 4 5, of "uniform_scratch 7"]
  show ?thesis by (simp only: 6)
qed

text \<open>
  Without the bound the claim fails: the times 2147483647 and 1 sum to \<open>2^31\<close>, which a
  32-bit cell does not hold, and the call returns the makespan 2147483647.
\<close>

theorem empty_sequence_insertion_counterexample:
  "taillard_acceleration (uniform_scratch 0) [] [[2147483647, 1]] 1 2 0 = (1, 2147483647) \<and>
   job_total [[2147483647, 1]] 2 1 = 2147483648"
  by code_simp

end
